theory Spec2Isabelle
  imports Complex_Main "HOL-Library.Word"
begin

section \<open>The Python runtime the renderer relies on\<close>

text \<open>
  The rendering module calls a handful of Python and NumPy primitives whose results it does
  not compute itself: \<^verbatim>\<open>int(s)\<close> and \<^verbatim>\<open>int(s, 16)\<close>, \<^verbatim>\<open>float(s)\<close>, binary64 arithmetic,
  \<^verbatim>\<open>int(x)\<close> on a float and \<^verbatim>\<open>astype(np.uint8)\<close>. They are taken as a parameter: a record
  of operations over a type \<open>'f\<close> of floating-point values. A conversion that raises in
  Python returns \<open>None\<close>.
\<close>

record 'f runtime =
  int_of_str :: "nat \<Rightarrow> string \<Rightarrow> int option"
  float_of_str :: "string \<Rightarrow> 'f option"
  float_of_int :: "int \<Rightarrow> 'f"
  fadd :: "'f \<Rightarrow> 'f \<Rightarrow> 'f"
  fsub :: "'f \<Rightarrow> 'f \<Rightarrow> 'f"
  fmul :: "'f \<Rightarrow> 'f \<Rightarrow> 'f"
  fdiv :: "'f \<Rightarrow> 'f \<Rightarrow> 'f"
  int_of_float :: "'f \<Rightarrow> int option"
  uint8_of_float :: "'f \<Rightarrow> 8 word"

datatype error = ValueError | OverflowError | FT_Exception

section \<open>Styles and segments\<close>

record 'f style =
  color :: string
  font_size :: int
  spacing :: 'f

record 'f segment =
  seg_text :: string
  seg_style :: "'f style"

section \<open>The tokenizer\<close>

text \<open>
  \<^verbatim>\<open>re.split(r'(\[/?(?:color|size|spacing)[^\]]*\])', text)\<close>: the pattern is matched at
  the leftmost position where it matches, the pieces between matches and the matches
  themselves alternate in the result. A string is a list of 8-bit characters; the
  characters of the pattern are ASCII, so a text encoded in UTF-8 is split at the same
  places as the text of code points.
\<close>

definition tag_kinds :: "string list" where
  "tag_kinds = [''color'', ''size'', ''spacing'']"

text \<open>\<^verbatim>\<open>[^\]]*\]\<close> at the start of \<open>s\<close>: the number of characters matched.\<close>

definition match_rest :: "string \<Rightarrow> nat option" where
  "match_rest s =
     (let n = length (takeWhile (\<lambda>c. c \<noteq> CHR '']'') s)
      in if n < length s then Some (Suc n) else None)"

text \<open>The alternation, tried in order, followed by the rest of the pattern.\<close>

fun match_keyword :: "string list \<Rightarrow> string \<Rightarrow> nat option" where
  "match_keyword [] s = None"
| "match_keyword (k # ks) s =
     (if take (length k) s = k
      then (case match_rest (drop (length k) s) of
              Some n \<Rightarrow> Some (length k + n)
            | None \<Rightarrow> match_keyword ks s)
      else match_keyword ks s)"

text \<open>The whole pattern at the start of \<open>s\<close>; the optional slash is tried first.\<close>

definition match_tag :: "string \<Rightarrow> nat option" where
  "match_tag s =
     (case s of
        [] \<Rightarrow> None
      | c # r \<Rightarrow>
          if c \<noteq> CHR ''['' then None
          else (case (case r of
                        [] \<Rightarrow> None
                      | d # r' \<Rightarrow> if d = CHR ''/'' then match_keyword tag_kinds r' else None) of
                  Some n \<Rightarrow> Some (Suc (Suc n))
                | None \<Rightarrow> (case match_keyword tag_kinds r of
                              Some n \<Rightarrow> Some (Suc n)
                            | None \<Rightarrow> None)))"

text \<open>
  The split: \<open>acc\<close> holds the literal characters since the last match. A match of length
  \<open>n\<close> at \<open>c # cs\<close> is \<open>take n (c # cs)\<close> and the scan goes on after it, at
  \<open>drop n (c # cs) = drop (n - 1) cs\<close>.
\<close>

fun re_split :: "string \<Rightarrow> string \<Rightarrow> string list" where
  "re_split acc [] = [acc]"
| "re_split acc (c # cs) =
     (case match_tag (c # cs) of
        Some n \<Rightarrow> acc # take n (c # cs) # re_split [] (drop (n - 1) cs)
      | None \<Rightarrow> re_split (acc @ [c]) cs)"

section \<open>The markup parser\<close>

text \<open>\<^verbatim>\<open>part.startswith('[') and part.endswith(']')\<close>\<close>

definition is_tag :: "string \<Rightarrow> bool" where
  "is_tag part = (part \<noteq> [] \<and> hd part = CHR ''['' \<and> last part = CHR '']'')"

text \<open>\<^verbatim>\<open>part[1:-1]\<close>\<close>

definition tag_content :: "string \<Rightarrow> string" where
  "tag_content part = butlast (tl part)"

text \<open>
  \<^verbatim>\<open>tag_type, value = tag_content.split('=', 1)\<close>: without an \<^verbatim>\<open>=\<close> the split has one
  element and the unpacking raises ValueError, which is \<open>None\<close> here.
\<close>

definition split_eq :: "string \<Rightarrow> (string \<times> string) option" where
  "split_eq s =
     (if CHR ''='' \<in> set s
      then Some (takeWhile (\<lambda>c. c \<noteq> CHR ''='') s, tl (dropWhile (\<lambda>c. c \<noteq> CHR ''='') s))
      else None)"

type_synonym 'f parse_state = "'f segment list \<times> 'f style list"

text \<open>
  One iteration of the loop over the parts. The style stack is a Python list: the
  current style is its last element, a push appends and a pop removes the last element.
\<close>

definition parse_part :: "'f runtime \<Rightarrow> 'f parse_state \<Rightarrow> string \<Rightarrow> 'f parse_state" where
  "parse_part rt st part =
     (let segments = fst st; style_stack = snd st in
      if part = [] then st
      else if is_tag part then
        (if take 1 (tag_content part) = ''/'' then
           (segments, if length style_stack > 1 then butlast style_stack else style_stack)
         else
           (let new_style = last style_stack;
                literal = (segments @ [\<lparr>seg_text = part, seg_style = last style_stack\<rparr>], style_stack)
            in case split_eq (tag_content part) of
                 None \<Rightarrow> literal
               | Some (tag_type, v) \<Rightarrow>
                   if tag_type = ''color'' then
                     (segments, style_stack @ [new_style\<lparr>color := v\<rparr>])
                   else if tag_type = ''size'' then
                     (case int_of_str rt 10 v of
                        None \<Rightarrow> literal
                      | Some n \<Rightarrow> (segments, style_stack @ [new_style\<lparr>font_size := n\<rparr>]))
                   else if tag_type = ''spacing'' then
                     (case float_of_str rt v of
                        None \<Rightarrow> literal
                      | Some x \<Rightarrow> (segments, style_stack @ [new_style\<lparr>spacing := x\<rparr>]))
                   else (segments, style_stack @ [new_style])))
      else (segments @ [\<lparr>seg_text = part, seg_style = last style_stack\<rparr>], style_stack))"

definition parse_parts :: "'f runtime \<Rightarrow> 'f parse_state \<Rightarrow> string list \<Rightarrow> 'f parse_state" where
  "parse_parts rt st parts = foldl (parse_part rt) st parts"

definition parse_rich_text :: "'f runtime \<Rightarrow> string \<Rightarrow> 'f style \<Rightarrow> 'f segment list" where
  "parse_rich_text rt raw default_options =
     fst (parse_parts rt ([], [default_options]) (re_split [] raw))"

text \<open>Whether the tag pattern matches anywhere in a text.\<close>

fun has_tag :: "string \<Rightarrow> bool" where
  "has_tag [] = False"
| "has_tag (c # cs) = (match_tag (c # cs) \<noteq> None \<or> has_tag cs)"

subsection \<open>Well-formed markup\<close>

text \<open>
  A tag is its content between brackets. The text of an opening tag of kind \<open>k\<close> with
  attribute value \<open>v\<close>, and of a closing tag that names \<open>k\<close>.
\<close>

definition bracketed :: "string \<Rightarrow> string" where
  "bracketed s = ''['' @ s @ '']''"

definition open_tag :: "string \<Rightarrow> string \<Rightarrow> string" where
  "open_tag k v = bracketed (k @ ''='' @ v)"

definition close_tag :: "string \<Rightarrow> string" where
  "close_tag k = bracketed (''/'' @ k)"

text \<open>
  The tokens of well-formed markup: literal text without an opening bracket, opening
  tags of a known kind whose value parses, and closing tags of a known kind.
\<close>

datatype token = Text string | Open string string | Close string

fun part_of :: "token \<Rightarrow> string" where
  "part_of (Text s) = s"
| "part_of (Open k v) = open_tag k v"
| "part_of (Close k) = close_tag k"

fun valid_token :: "'f runtime \<Rightarrow> token \<Rightarrow> bool" where
  "valid_token rt (Text s) = (CHR ''['' \<notin> set s)"
| "valid_token rt (Open k v) =
     (k \<in> set tag_kinds \<and> CHR '']'' \<notin> set v \<and>
      (k = ''size'' \<longrightarrow> int_of_str rt 10 v \<noteq> None) \<and>
      (k = ''spacing'' \<longrightarrow> float_of_str rt v \<noteq> None))"
| "valid_token rt (Close k) = (k \<in> set tag_kinds)"

text \<open>
  The nesting depth after a token sequence that starts at depth \<open>d\<close>; \<open>None\<close> when a
  closing tag has no opening tag to match.
\<close>

fun nesting :: "token list \<Rightarrow> nat \<Rightarrow> nat option" where
  "nesting [] d = Some d"
| "nesting (Text s # ts) d = nesting ts d"
| "nesting (Open k v # ts) d = nesting ts (Suc d)"
| "nesting (Close k # ts) d = (case d of 0 \<Rightarrow> None | Suc d' \<Rightarrow> nesting ts d')"

text \<open>The text of a token sequence, and the parts the tokenizer splits it into.\<close>

definition markup_text :: "token list \<Rightarrow> string" where
  "markup_text ts = concat (map part_of ts)"

fun chunks :: "string \<Rightarrow> token list \<Rightarrow> string list" where
  "chunks acc [] = [acc]"
| "chunks acc (Text s # ts) = chunks (acc @ s) ts"
| "chunks acc (t # ts) = acc # part_of t # chunks [] ts"

text \<open>
  A text has its brackets closed when its last bracket, if it has one, is a closing one:
  then no tag that starts in the text can reach into what follows it. \<open>closed_from b\<close>
  reads a text from the left, \<open>b\<close> saying that the last bracket seen was an opening
  one.
\<close>

fun closed_from :: "bool \<Rightarrow> string \<Rightarrow> bool" where
  "closed_from b [] = (\<not> b)"
| "closed_from b (c # cs) =
     closed_from (if c = CHR ''['' then True else if c = CHR '']'' then False else b) cs"

definition closed_brackets :: "string \<Rightarrow> bool" where
  "closed_brackets s = closed_from False s"

text \<open>
  A malformed opening tag of kind \<open>k\<close>: its content is \<open>k @ r\<close> where \<open>r\<close> has no
  \<^verbatim>\<open>=\<close>, or \<open>r\<close> is \<^verbatim>\<open>=\<close> and a value that does not parse as the kind's type. A colour
  value is stored as it is, so a colour tag with an \<^verbatim>\<open>=\<close> is never malformed.
\<close>

definition malformed :: "'f runtime \<Rightarrow> string \<Rightarrow> string \<Rightarrow> bool" where
  "malformed rt k r =
     (k \<in> set tag_kinds \<and> CHR '']'' \<notin> set r \<and>
      (CHR ''='' \<notin> set r \<or>
       (k = ''size'' \<and> take 1 r = ''='' \<and> int_of_str rt 10 (tl r) = None) \<or>
       (k = ''spacing'' \<and> take 1 r = ''='' \<and> float_of_str rt (tl r) = None)))"

section \<open>The compositor\<close>

text \<open>
  The target image is an array of shape (height, width, 3) of bytes: a list of rows of
  pixels, a pixel being its three channels in the order blue, green, red.
\<close>

type_synonym pixel = "8 word \<times> 8 word \<times> 8 word"

type_synonym image = "pixel list list"

text \<open>\<^verbatim>\<open>img.shape[:2]\<close>\<close>

definition img_shape :: "'a list list \<Rightarrow> nat \<times> nat" where
  "img_shape img = (length img, case img of [] \<Rightarrow> 0 | r # _ \<Rightarrow> length r)"

definition rectangular :: "'a list list \<Rightarrow> bool" where
  "rectangular img = list_all (\<lambda>r. length r = snd (img_shape img)) img"

text \<open>The glyph bitmap of the font backend: \<open>rows\<close> rows of \<open>width\<close> coverage bytes.\<close>

record glyph_bitmap =
  width :: nat
  rows :: nat
  buffer :: "8 word list"

text \<open>
  A Python slice \<^verbatim>\<open>xs[a:b]\<close> of a sequence of length \<open>n\<close>: a negative index counts from
  the end, and both ends are clamped to the sequence.
\<close>

definition slice_bounds :: "int \<Rightarrow> int \<Rightarrow> nat \<Rightarrow> nat \<times> nat" where
  "slice_bounds a b n =
     (let lo = (if a < 0 then max 0 (a + int n) else min a (int n));
          hi = (if b < 0 then max 0 (b + int n) else min b (int n))
      in (nat lo, nat hi))"

definition py_slice :: "int \<Rightarrow> int \<Rightarrow> 'a list \<Rightarrow> 'a list" where
  "py_slice a b xs =
     (let (lo, hi) = slice_bounds a b (length xs) in take (hi - lo) (drop lo xs))"

text \<open>\<^verbatim>\<open>m[r0:r1, c0:c1]\<close>\<close>

definition slice2 :: "int \<Rightarrow> int \<Rightarrow> int \<Rightarrow> int \<Rightarrow> 'a list list \<Rightarrow> 'a list list" where
  "slice2 r0 r1 c0 c1 m = map (py_slice c0 c1) (py_slice r0 r1 m)"

text \<open>
  \<^verbatim>\<open>np.array(buffer, dtype=np.uint8).reshape(h, w)\<close>: ValueError unless the buffer has
  \<open>h * w\<close> elements.
\<close>

definition reshape :: "'a list \<Rightarrow> nat \<Rightarrow> nat \<Rightarrow> 'a list list option" where
  "reshape xs h w =
     (if length xs = h * w then Some (map (\<lambda>i. take w (drop (i * w) xs)) [0..<h]) else None)"

text \<open>
  One channel of \<^verbatim>\<open>(1.0 - alpha) * target_roi + alpha * color_bgr\<close> with
  \<^verbatim>\<open>alpha = glyph_roi / 255.0\<close>, converted by \<^verbatim>\<open>astype(np.uint8)\<close>.
\<close>

definition blend_channel :: "'f runtime \<Rightarrow> 8 word \<Rightarrow> 8 word \<Rightarrow> int \<Rightarrow> 8 word" where
  "blend_channel rt g t c =
     (let alpha = fdiv rt (float_of_int rt (uint g)) (float_of_int rt 255)
      in uint8_of_float rt
           (fadd rt (fmul rt (fsub rt (float_of_int rt 1) alpha) (float_of_int rt (uint t)))
                    (fmul rt alpha (float_of_int rt c))))"

definition blend_pixel :: "'f runtime \<Rightarrow> int \<times> int \<times> int \<Rightarrow> 8 word \<Rightarrow> pixel \<Rightarrow> pixel" where
  "blend_pixel rt color_bgr g p =
     (case (p, color_bgr) of
        ((tb, tg, tr), (cb, cg, cr)) \<Rightarrow>
          (blend_channel rt g tb cb, blend_channel rt g tg cg, blend_channel rt g tr cr))"

text \<open>
  The element-wise operations need operands of one shape. (NumPy also stretches an axis
  of length one; the two regions here are cut with the same height and width, see
  \<open>draw_glyph_result\<close>, so this case does not arise.)
\<close>

definition same_shape :: "'a list list \<Rightarrow> 'b list list \<Rightarrow> bool" where
  "same_shape a b = (map length a = map length b)"

definition blend_roi ::
  "'f runtime \<Rightarrow> int \<times> int \<times> int \<Rightarrow> 8 word list list \<Rightarrow> image \<Rightarrow> image option" where
  "blend_roi rt color_bgr glyph_roi target_roi =
     (if same_shape glyph_roi target_roi
      then Some (map2 (map2 (blend_pixel rt color_bgr)) glyph_roi target_roi)
      else None)"

text \<open>\<^verbatim>\<open>img[r0:r1, c0:c1] = v\<close>: ValueError unless \<open>v\<close> has the shape of the slice.\<close>

definition assign2 :: "int \<Rightarrow> int \<Rightarrow> int \<Rightarrow> int \<Rightarrow> 'a list list \<Rightarrow> 'a list list \<Rightarrow> 'a list list option" where
  "assign2 r0 r1 c0 c1 v img =
     (let (rlo, rhi) = slice_bounds r0 r1 (fst (img_shape img));
          (clo, chi) = slice_bounds c0 c1 (snd (img_shape img))
      in if length v = rhi - rlo \<and> list_all (\<lambda>r. length r = chi - clo) v
         then Some (map (\<lambda>i. if rlo \<le> i \<and> i < rhi
                              then map (\<lambda>j. if clo \<le> j \<and> j < chi
                                             then v ! (i - rlo) ! (j - clo)
                                             else img ! i ! j)
                                       [0..<length (img ! i)]
                              else img ! i)
                        [0..<length img])
         else None)"

text \<open>The clip amounts of \<^verbatim>\<open>_draw_glyph\<close>, one side each.\<close>

definition x_start_clip :: "int \<Rightarrow> int" where
  "x_start_clip x = max 0 (- x)"

definition y_start_clip :: "int \<Rightarrow> int" where
  "y_start_clip y = max 0 (- y)"

definition x_end_clip :: "int \<Rightarrow> int \<Rightarrow> int \<Rightarrow> int" where
  "x_end_clip x w img_w = max 0 (x + w - img_w)"

definition y_end_clip :: "int \<Rightarrow> int \<Rightarrow> int \<Rightarrow> int" where
  "y_end_clip y h img_h = max 0 (y + h - img_h)"

definition clipped_w :: "'a list list \<Rightarrow> glyph_bitmap \<Rightarrow> int \<Rightarrow> int" where
  "clipped_w img bm x =
     int (width bm) - x_start_clip x - x_end_clip x (int (width bm)) (int (snd (img_shape img)))"

definition clipped_h :: "'a list list \<Rightarrow> glyph_bitmap \<Rightarrow> int \<Rightarrow> int" where
  "clipped_h img bm y =
     int (rows bm) - y_start_clip y - y_end_clip y (int (rows bm)) (int (fst (img_shape img)))"

text \<open>
  \<^verbatim>\<open>_draw_glyph(img, glyph_bitmap, x, y, color_bgr)\<close>. The image is updated in place in
  the source; here the new image is returned, and an exception leaves the image as it
  was.
\<close>

definition draw_glyph ::
  "'f runtime \<Rightarrow> image \<Rightarrow> glyph_bitmap \<Rightarrow> int \<Rightarrow> int \<Rightarrow> int \<times> int \<times> int \<Rightarrow> error + image" where
  "draw_glyph rt img bm x y color_bgr =
     (let w = int (width bm); h = int (rows bm) in
      if w = 0 \<or> h = 0 then Inr img
      else if clipped_w img bm x \<le> 0 \<or> clipped_h img bm y \<le> 0 then Inr img
      else
        (let r0 = y + y_start_clip y; r1 = y + y_start_clip y + clipped_h img bm y;
             c0 = x + x_start_clip x; c1 = x + x_start_clip x + clipped_w img bm x;
             target_roi = slice2 r0 r1 c0 c1 img
         in case reshape (buffer bm) (rows bm) (width bm) of
              None \<Rightarrow> Inl ValueError
            | Some g \<Rightarrow>
                (let glyph_roi = slice2 (y_start_clip y) (y_start_clip y + clipped_h img bm y)
                                        (x_start_clip x) (x_start_clip x + clipped_w img bm x) g
                 in case blend_roi rt color_bgr glyph_roi target_roi of
                      None \<Rightarrow> Inl ValueError
                    | Some blended_roi \<Rightarrow>
                        (case assign2 r0 r1 c0 c1 blended_roi img of
                           None \<Rightarrow> Inl ValueError
                         | Some img' \<Rightarrow> Inr img'))))"

text \<open>
  What the boundary cases of the blend need of binary64 arithmetic: 0/255 is 0, 255/255
  is 1, 1 - 0 is 1, 1 - 1 is 0, and for an integer \<open>n\<close> from 0 to 255, 1 * n and n + 0
  and 0 + n are n, 0 * n is 0, and the conversion to a byte gives n back.
\<close>

definition binary64_laws :: "'f runtime \<Rightarrow> bool" where
  "binary64_laws rt =
     (let z = float_of_int rt 0; one = float_of_int rt 1; m = float_of_int rt 255 in
      fdiv rt z m = z \<and> fdiv rt m m = one \<and> fsub rt one z = one \<and> fsub rt one one = z \<and>
      (\<forall>n. 0 \<le> n \<and> n \<le> 255 \<longrightarrow>
         fmul rt one (float_of_int rt n) = float_of_int rt n \<and>
         fmul rt z (float_of_int rt n) = z \<and>
         fadd rt (float_of_int rt n) z = float_of_int rt n \<and>
         fadd rt z (float_of_int rt n) = float_of_int rt n \<and>
         uint8_of_float rt (float_of_int rt n) = word_of_int n))"

section \<open>The layout engine\<close>

text \<open>
  The font face of the backend. \<^verbatim>\<open>set_pixel_sizes(0, size)\<close> gives the size metrics,
  \<^verbatim>\<open>load_char\<close> the glyph slot of a character and \<^verbatim>\<open>get_kerning\<close> the kerning vector's
  \<open>x\<close>, each at the pixel size set last; the metrics are in 26.6 fixed point. \<open>None\<close>
  is an exception of the backend. The previous character is \<open>None\<close> where the source
  passes \<^verbatim>\<open>0\<close>.
\<close>

record size_metrics =
  size_ascender :: int
  size_height :: int

record glyph_slot =
  advance_x :: int
  bitmap_left :: int
  bitmap_top :: int
  bitmap :: glyph_bitmap

record face =
  set_pixel_sizes :: "int \<Rightarrow> size_metrics option"
  load_char :: "int \<Rightarrow> char \<Rightarrow> glyph_slot option"
  get_kerning :: "int \<Rightarrow> char option \<Rightarrow> char \<Rightarrow> int option"

text \<open>
  \<^verbatim>\<open>hex_to_bgr\<close>: the leading \<^verbatim>\<open>#\<close> characters are stripped and the three pairs of
  characters are read in base 16, blue first.
\<close>

definition hex_to_bgr :: "'f runtime \<Rightarrow> string \<Rightarrow> (int \<times> int \<times> int) option" where
  "hex_to_bgr rt hex_color =
     (let h = dropWhile (\<lambda>c. c = CHR ''#'') hex_color in
      case int_of_str rt 16 (take 2 (drop 4 h)) of
        None \<Rightarrow> None
      | Some b \<Rightarrow>
          (case int_of_str rt 16 (take 2 (drop 2 h)) of
             None \<Rightarrow> None
           | Some g \<Rightarrow>
               (case int_of_str rt 16 (take 2 h) of
                  None \<Rightarrow> None
                | Some r \<Rightarrow> Some (b, g, r))))"

text \<open>\<^verbatim>\<open>text_to_draw.replace('\\n', '\n')\<close>: a backslash and an \<^verbatim>\<open>n\<close> become a line break.\<close>

fun replace_newlines :: "string \<Rightarrow> string" where
  "replace_newlines (a # b # cs) =
     (if a = CHR 0x5C \<and> b = CHR ''n'' then CHR 0x0A # replace_newlines cs
      else a # replace_newlines (b # cs))"
| "replace_newlines cs = cs"

text \<open>The pen, the kerning context and the image that \<^verbatim>\<open>draw_text\<close> updates.\<close>

record pen_state =
  pen_x :: int
  pen_y :: int
  previous_char :: "char option"
  canvas :: image

text \<open>
  \<^verbatim>\<open>int((face.size.height >> 6) * current_spacing)\<close>; \<open>None\<close> is the OverflowError (or,
  for a NaN, ValueError) of \<^verbatim>\<open>int\<close>.
\<close>

definition line_gap :: "'f runtime \<Rightarrow> size_metrics \<Rightarrow> 'f \<Rightarrow> int option" where
  "line_gap rt m current_spacing =
     int_of_float rt (fmul rt (float_of_int rt (size_height m div 64)) current_spacing)"

text \<open>
  The wrap test:
  \<^verbatim>\<open>max_width and (pen_x + kerning + advance) > (x_start + max_width) and pen_x > x_start\<close>.
\<close>

definition wraps :: "int option \<Rightarrow> int \<Rightarrow> int \<Rightarrow> int \<Rightarrow> int \<Rightarrow> bool" where
  "wraps max_width x_start px kerning advance =
     (case max_width of
        None \<Rightarrow> False
      | Some w \<Rightarrow> w \<noteq> 0 \<and> px + kerning + advance > x_start + w \<and> px > x_start)"

text \<open>
  One iteration of the loop over the characters of a segment (an element of the string
  stands for one character of the Python text).
\<close>

definition draw_char ::
  "'f runtime \<Rightarrow> face \<Rightarrow> int \<Rightarrow> int \<Rightarrow> int \<Rightarrow> int \<times> int \<times> int \<Rightarrow> int \<Rightarrow> int option \<Rightarrow>
   pen_state \<Rightarrow> char \<Rightarrow> error + pen_state" where
  "draw_char rt fc current_font_size asc gap color_bgr x_start max_width st ch =
     (if ch = CHR 0x0A then
        Inr (st\<lparr>pen_x := x_start, pen_y := pen_y st + gap, previous_char := None\<rparr>)
      else
        (case load_char fc current_font_size ch of
           None \<Rightarrow> Inl FT_Exception
         | Some glyph \<Rightarrow>
             (case get_kerning fc current_font_size (previous_char st) ch of
                None \<Rightarrow> Inl FT_Exception
              | Some k \<Rightarrow>
                  (let kerning0 = k div 64;
                       advance = advance_x glyph div 64;
                       wrap = wraps max_width x_start (pen_x st) kerning0 advance;
                       px = (if wrap then x_start else pen_x st);
                       py = (if wrap then pen_y st + gap else pen_y st);
                       kerning = (if wrap then 0 else kerning0);
                       px' = px + kerning;
                       draw_x = px' + bitmap_left glyph;
                       draw_y = py + asc - bitmap_top glyph
                   in case draw_glyph rt (canvas st) (bitmap glyph) draw_x draw_y color_bgr of
                        Inl e \<Rightarrow> Inl e
                      | Inr img' \<Rightarrow>
                          Inr \<lparr>pen_x = px' + advance, pen_y = py,
                               previous_char = Some ch, canvas = img'\<rparr>))))"

fun draw_chars ::
  "'f runtime \<Rightarrow> face \<Rightarrow> int \<Rightarrow> int \<Rightarrow> int \<Rightarrow> int \<times> int \<times> int \<Rightarrow> int \<Rightarrow> int option \<Rightarrow>
   pen_state \<Rightarrow> string \<Rightarrow> error + pen_state" where
  "draw_chars rt fc sz asc gap col x_start max_width st [] = Inr st"
| "draw_chars rt fc sz asc gap col x_start max_width st (c # cs) =
     (case draw_char rt fc sz asc gap col x_start max_width st c of
        Inl e \<Rightarrow> Inl e
      | Inr st' \<Rightarrow> draw_chars rt fc sz asc gap col x_start max_width st' cs)"

text \<open>One iteration of the loop over the segments.\<close>

definition draw_segment ::
  "'f runtime \<Rightarrow> face \<Rightarrow> int \<Rightarrow> int option \<Rightarrow> pen_state \<Rightarrow> 'f segment \<Rightarrow> error + pen_state" where
  "draw_segment rt fc x_start max_width st seg =
     (let style = seg_style seg;
          current_font_size = font_size style;
          current_spacing = spacing style
      in case hex_to_bgr rt (color style) of
           None \<Rightarrow> Inl ValueError
         | Some color_bgr \<Rightarrow>
             (case set_pixel_sizes fc current_font_size of
                None \<Rightarrow> Inl FT_Exception
              | Some m \<Rightarrow>
                  (case line_gap rt m current_spacing of
                     None \<Rightarrow> Inl OverflowError
                   | Some gap \<Rightarrow>
                       draw_chars rt fc current_font_size (size_ascender m div 64) gap color_bgr
                         x_start max_width st (seg_text seg))))"

fun draw_segments ::
  "'f runtime \<Rightarrow> face \<Rightarrow> int \<Rightarrow> int option \<Rightarrow> pen_state \<Rightarrow> 'f segment list \<Rightarrow> error + pen_state" where
  "draw_segments rt fc x_start max_width st [] = Inr st"
| "draw_segments rt fc x_start max_width st (seg # segs) =
     (case draw_segment rt fc x_start max_width st seg of
        Inl e \<Rightarrow> Inl e
      | Inr st' \<Rightarrow> draw_segments rt fc x_start max_width st' segs)"

text \<open>
  The options \<^verbatim>\<open>draw_text\<close> reads from \<^verbatim>\<open>base_options\<close>, each with its default.
\<close>

record 'f base_options =
  opt_color :: "string option"
  opt_font_size :: "int option"
  opt_line_spacing :: "'f option"

definition default_style :: "'f base_options \<Rightarrow> 'f \<Rightarrow> 'f style" where
  "default_style opts line_spacing_multiplier =
     \<lparr>color = (case opt_color opts of None \<Rightarrow> ''#000000'' | Some c \<Rightarrow> c),
      font_size = (case opt_font_size opts of None \<Rightarrow> 40 | Some n \<Rightarrow> n),
      spacing = (case opt_line_spacing opts of None \<Rightarrow> line_spacing_multiplier | Some x \<Rightarrow> x)\<rparr>"

definition draw_text ::
  "'f runtime \<Rightarrow> image \<Rightarrow> string \<Rightarrow> int \<times> int \<Rightarrow> face \<Rightarrow> 'f base_options \<Rightarrow> int option \<Rightarrow> 'f \<Rightarrow>
   error + pen_state" where
  "draw_text rt img text_to_draw start_pos fc opts max_width line_spacing_multiplier =
     (let segments = parse_rich_text rt (replace_newlines text_to_draw)
                       (default_style opts line_spacing_multiplier);
          x_start = fst start_pos; y_start = snd start_pos
      in draw_segments rt fc x_start max_width
           \<lparr>pen_x = x_start, pen_y = y_start, previous_char = None, canvas = img\<rparr> segments)"

section \<open>An exact instance of the runtime\<close>

text \<open>
  For evaluating the renderer on concrete inputs: floats are rational numbers and the
  arithmetic is exact, which is what binary64 computes as long as every operand and
  result is a binary64 number (as for the dyadic values used below); elsewhere binary64
  rounds and this instance does not. The string conversions cover ASCII input: \<^verbatim>\<open>int\<close>
  with surrounding white space, a sign, the \<^verbatim>\<open>0x\<close> prefix in base 16 and single
  underscores between digits, without the digits beyond ASCII and without the limit on
  the number of digits; \<^verbatim>\<open>float\<close> for plain decimal literals with a sign and a fraction,
  without exponents, underscores, infinities and NaN. The theorems hold for every
  runtime; this instance is used at inputs where it agrees with Python.
\<close>

definition py_isspace :: "char \<Rightarrow> bool" where
  "py_isspace c = (c \<in> set [CHR '' '', CHR 0x09, CHR 0x0A, CHR 0x0B, CHR 0x0C, CHR 0x0D])"

definition py_strip :: "string \<Rightarrow> string" where
  "py_strip s = rev (dropWhile py_isspace (rev (dropWhile py_isspace s)))"

definition digit_of :: "char \<Rightarrow> nat option" where
  "digit_of c =
     (let n = (of_char c :: nat) in
      if 48 \<le> n \<and> n \<le> 57 then Some (n - 48)
      else if 97 \<le> n \<and> n \<le> 122 then Some (n - 87)
      else if 65 \<le> n \<and> n \<le> 90 then Some (n - 55)
      else None)"

text \<open>
  Digits of base \<open>b\<close> with single underscores between them; \<open>ld\<close> says that the last
  character read was a digit.
\<close>

fun digits_value :: "nat \<Rightarrow> int \<Rightarrow> bool \<Rightarrow> string \<Rightarrow> int option" where
  "digits_value b acc ld [] = (if ld then Some acc else None)"
| "digits_value b acc ld (c # cs) =
     (if c = CHR ''_'' then (if ld then digits_value b acc False cs else None)
      else (case digit_of c of
              None \<Rightarrow> None
            | Some d \<Rightarrow> if d < b then digits_value b (acc * int b + int d) True cs else None))"

definition strip_prefix16 :: "nat \<Rightarrow> string \<Rightarrow> string" where
  "strip_prefix16 b s =
     (if b = 16 \<and> (take 2 s = ''0x'' \<or> take 2 s = ''0X'')
      then (if take 1 (drop 2 s) = ''_'' then drop 3 s else drop 2 s)
      else s)"

definition py_int :: "nat \<Rightarrow> string \<Rightarrow> int option" where
  "py_int b s =
     (let t = py_strip s;
          neg = (take 1 t = ''-'');
          u = (if take 1 t = ''-'' \<or> take 1 t = ''+'' then tl t else t)
      in map_option (\<lambda>n. if neg then - n else n) (digits_value b 0 False (strip_prefix16 b u)))"

fun plain_digits :: "int \<Rightarrow> string \<Rightarrow> int option" where
  "plain_digits acc [] = Some acc"
| "plain_digits acc (c # cs) =
     (case digit_of c of
        None \<Rightarrow> None
      | Some d \<Rightarrow> if d < 10 then plain_digits (acc * 10 + int d) cs else None)"

definition py_float :: "string \<Rightarrow> rat option" where
  "py_float s =
     (let t = py_strip s;
          neg = (take 1 t = ''-'');
          u = (if take 1 t = ''-'' \<or> take 1 t = ''+'' then tl t else t);
          ip = takeWhile (\<lambda>c. c \<noteq> CHR ''.'') u;
          fp = drop (Suc (length ip)) u
      in if ip = [] \<and> fp = [] then None
         else (case (plain_digits 0 ip, plain_digits 0 fp) of
                 (Some a, Some b) \<Rightarrow>
                   Some ((if neg then - 1 else 1) * (of_int a + of_int b / 10 ^ length fp))
               | _ \<Rightarrow> None))"

text \<open>Truncation towards zero: \<^verbatim>\<open>int(x)\<close> and, within 0..255, \<^verbatim>\<open>astype(np.uint8)\<close>.\<close>

definition trunc :: "rat \<Rightarrow> int" where
  "trunc x = (if 0 \<le> x then \<lfloor>x\<rfloor> else \<lceil>x\<rceil>)"

text \<open>
  \<^verbatim>\<open>int\<close> of a float truncates: \<open>val\<close> gives the number a float stands for.
\<close>

definition truncating :: "'f runtime \<Rightarrow> ('f \<Rightarrow> rat) \<Rightarrow> bool" where
  "truncating rt val = (\<forall>x n. int_of_float rt x = Some n \<longrightarrow> n = trunc (val x))"

definition exact_runtime :: "rat runtime" where
  "exact_runtime =
     \<lparr>int_of_str = py_int, float_of_str = py_float, float_of_int = of_int,
      fadd = (+), fsub = (-), fmul = (*), fdiv = (/),
      int_of_float = (\<lambda>x. Some (trunc x)), uint8_of_float = (\<lambda>x. word_of_int (trunc x))\<rparr>"

definition black40 :: "rat style" where
  "black40 = \<lparr>color = ''#000000'', font_size = 40, spacing = 3 / 2\<rparr>"

definition red12 :: "rat style" where
  "red12 = \<lparr>color = ''#ff0000'', font_size = 12, spacing = 3 / 2\<rparr>"

definition red40 :: "rat style" where
  "red40 = \<lparr>color = ''#ff0000'', font_size = 40, spacing = 3 / 2\<rparr>"

text \<open>A two by two image and a two by two glyph.\<close>

definition img22 :: image where
  "img22 = [[(10, 20, 30), (40, 50, 60)], [(70, 80, 90), (100, 110, 120)]]"

definition bm22 :: glyph_bitmap where
  "bm22 = \<lparr>width = 2, rows = 2, buffer = [0, 255, 128, 64]\<rparr>"

text \<open>
  Two stub faces with empty glyph bitmaps: one with the same advance of 4 pixels for
  every character and no kerning; one where \<^verbatim>\<open>a\<close> and \<^verbatim>\<open>b\<close> have no advance, \<^verbatim>\<open>c\<close> has an
  advance of 100 pixels and the kerning of \<^verbatim>\<open>b\<close> after \<^verbatim>\<open>a\<close> is one pixel to the left.
\<close>

definition mono_face :: face where
  "mono_face =
     \<lparr>set_pixel_sizes = (\<lambda>sz. Some \<lparr>size_ascender = 64 * sz, size_height = 64 * sz\<rparr>),
      load_char = (\<lambda>sz c. Some \<lparr>advance_x = 64 * 4, bitmap_left = 0, bitmap_top = 0,
                                 bitmap = \<lparr>width = 0, rows = 0, buffer = []\<rparr>\<rparr>),
      get_kerning = (\<lambda>sz p c. Some 0)\<rparr>"

definition kern_face :: face where
  "kern_face =
     \<lparr>set_pixel_sizes = (\<lambda>sz. Some \<lparr>size_ascender = 64 * sz, size_height = 64 * sz\<rparr>),
      load_char = (\<lambda>sz c. Some \<lparr>advance_x = (if c = CHR ''c'' then 64 * 100 else 0),
                                 bitmap_left = 0, bitmap_top = 0,
                                 bitmap = \<lparr>width = 0, rows = 0, buffer = []\<rparr>\<rparr>),
      get_kerning = (\<lambda>sz p c. if p = Some CHR ''a'' \<and> c = CHR ''b'' then Some (- 64) else Some 0)\<rparr>"

definition opts0 :: "rat base_options" where
  "opts0 = \<lparr>opt_color = None, opt_font_size = Some 1, opt_line_spacing = Some (7 / 4)\<rparr>"

section \<open>Properties of the tokenizer and the parser\<close>


lemma tag_kinds_cases: "k \<in> set tag_kinds \<Longrightarrow> k = ''color'' \<or> k = ''size'' \<or> k = ''spacing''"
  by (auto simp: tag_kinds_def)

lemma tag_kinds_chars:
  assumes "k \<in> set tag_kinds"
  shows "CHR ''='' \<notin> set k" "CHR '']'' \<notin> set k" "take 1 k \<noteq> ''/''" "k \<noteq> []"
  using tag_kinds_cases [OF assms] by auto

lemma is_tag_bracket: "is_tag (CHR ''['' # s @ '']'')"
  by (simp add: is_tag_def)

lemma tag_content_bracket: "tag_content (CHR ''['' # s @ '']'') = s"
  by (simp add: tag_content_def butlast_append)

lemma split_eq_none: "CHR ''='' \<notin> set s \<Longrightarrow> split_eq s = None"
  by (simp add: split_eq_def)

lemma split_eq_some:
  assumes "CHR ''='' \<notin> set k"
  shows "split_eq (k @ CHR ''='' # v) = Some (k, v)"
proof -
  have all: "\<And>x. x \<in> set k \<Longrightarrow> x \<noteq> CHR ''=''" using assms by auto
  have "takeWhile (\<lambda>c. c \<noteq> CHR ''='') (k @ CHR ''='' # v) = k"
    using all by (simp add: takeWhile_tail)
  moreover have "dropWhile (\<lambda>c. c \<noteq> CHR ''='') (k @ CHR ''='' # v) = CHR ''='' # v"
    using all by (simp add: dropWhile_append2)
  ultimately show ?thesis by (simp add: split_eq_def)
qed

lemma parse_parts_Nil: "parse_parts rt st [] = st"
  by (simp add: parse_parts_def)

lemma parse_parts_Cons: "parse_parts rt st (p # ps) = parse_parts rt (parse_part rt st p) ps"
  by (simp add: parse_parts_def)

lemma parse_parts_append: "parse_parts rt st (ps @ qs) = parse_parts rt (parse_parts rt st ps) qs"
  by (simp add: parse_parts_def)

lemma parse_part_closing:
  "parse_part rt (segs, stack) (CHR ''['' # CHR ''/'' # s @ '']'') =
     (segs, if 1 < length stack then butlast stack else stack)"
proof -
  have "tag_content (CHR ''['' # (CHR ''/'' # s) @ '']'') = CHR ''/'' # s"
    by (rule tag_content_bracket)
  moreover have "is_tag (CHR ''['' # (CHR ''/'' # s) @ '']'')"
    by (rule is_tag_bracket)
  ultimately show ?thesis
    by (simp add: parse_part_def)
qed

lemma parse_part_literal_tag:
  assumes "take 1 s \<noteq> ''/''" "split_eq s = None"
  shows "parse_part rt (segs, stack) (CHR ''['' # s @ '']'') =
     (segs @ [\<lparr>seg_text = CHR ''['' # s @ '']'', seg_style = last stack\<rparr>], stack)"
  using assms is_tag_bracket [of s] tag_content_bracket [of s]
  by (simp add: parse_part_def)

lemma parse_part_open:
  assumes "take 1 s \<noteq> ''/''" "split_eq s = Some (t, v)"
  shows "parse_part rt (segs, stack) (CHR ''['' # s @ '']'') =
     (if t = ''color'' then (segs, stack @ [(last stack)\<lparr>color := v\<rparr>])
      else if t = ''size'' then
        (case int_of_str rt 10 v of
           None \<Rightarrow> (segs @ [\<lparr>seg_text = CHR ''['' # s @ '']'', seg_style = last stack\<rparr>], stack)
         | Some n \<Rightarrow> (segs, stack @ [(last stack)\<lparr>font_size := n\<rparr>]))
      else if t = ''spacing'' then
        (case float_of_str rt v of
           None \<Rightarrow> (segs @ [\<lparr>seg_text = CHR ''['' # s @ '']'', seg_style = last stack\<rparr>], stack)
         | Some x \<Rightarrow> (segs, stack @ [(last stack)\<lparr>spacing := x\<rparr>]))
      else (segs, stack @ [last stack]))"
  using assms is_tag_bracket [of s] tag_content_bracket [of s]
  by (simp add: parse_part_def Let_def)

lemma parse_part_plain:
  "part \<noteq> [] \<Longrightarrow> \<not> is_tag part \<Longrightarrow>
   parse_part rt (segs, stack) part = (segs @ [\<lparr>seg_text = part, seg_style = last stack\<rparr>], stack)"
  by (simp add: parse_part_def)

lemma parse_part_empty: "parse_part rt st [] = st"
  by (simp add: parse_part_def)

text \<open>The segments found so far are only extended.\<close>

lemma parse_part_segs:
  "parse_part rt (segs, stack) p =
     (segs @ fst (parse_part rt ([], stack) p), snd (parse_part rt ([], stack) p))"
  by (simp add: parse_part_def Let_def split: option.splits prod.splits)

lemma parse_parts_segs:
  "parse_parts rt (segs, stack) ps =
     (segs @ fst (parse_parts rt ([], stack) ps), snd (parse_parts rt ([], stack) ps))"
proof (induction ps arbitrary: segs stack)
  case Nil
  show ?case by (simp add: parse_parts_Nil)
next
  case (Cons p ps)
  obtain s1 k1 where p1: "parse_part rt ([], stack) p = (s1, k1)" by (cases "parse_part rt ([], stack) p")
  have p2: "parse_part rt (segs, stack) p = (segs @ s1, k1)"
    using parse_part_segs [of rt segs stack p] p1 by simp
  show ?case
    using Cons.IH [of "segs @ s1" k1] Cons.IH [of s1 k1] p1 p2
    by (simp add: parse_parts_Cons)
qed

lemma parse_part_stack_inv:
  assumes "stack \<noteq> []"
  shows "snd (parse_part rt (segs, stack) p) \<noteq> [] \<and> hd (snd (parse_part rt (segs, stack) p)) = hd stack"
proof -
  have "1 < length stack \<Longrightarrow> butlast stack \<noteq> [] \<and> hd (butlast stack) = hd stack"
    by (cases stack) (auto)
  then show ?thesis using assms
    by (auto simp: parse_part_def Let_def split: option.splits prod.splits)
qed

lemma parse_parts_stack_inv:
  "stack \<noteq> [] \<Longrightarrow>
   snd (parse_parts rt (segs, stack) ps) \<noteq> [] \<and> hd (snd (parse_parts rt (segs, stack) ps)) = hd stack"
proof (induction ps arbitrary: segs stack)
  case Nil
  then show ?case by (simp add: parse_parts_Nil)
next
  case (Cons p ps)
  obtain s1 k1 where p1: "parse_part rt (segs, stack) p = (s1, k1)" by (cases "parse_part rt (segs, stack) p")
  have "k1 \<noteq> [] \<and> hd k1 = hd stack"
    using parse_part_stack_inv [OF Cons.prems, of rt segs p] p1 by simp
  then show ?case using Cons.IH [of k1 s1] p1 by (simp add: parse_parts_Cons)
qed


lemma match_rest_bracket:
  assumes "CHR '']'' \<notin> set r"
  shows "match_rest (r @ CHR '']'' # rest) = Some (Suc (length r))"
proof -
  have "takeWhile (\<lambda>c. c \<noteq> CHR '']'') (r @ CHR '']'' # rest) = r"
    using assms by (auto simp: takeWhile_tail)
  then show ?thesis by (simp add: match_rest_def)
qed

lemma match_keyword_kind:
  assumes "k \<in> set tag_kinds" "CHR '']'' \<notin> set r"
  shows "match_keyword tag_kinds (k @ r @ CHR '']'' # rest) = Some (length k + Suc (length r))"
  using tag_kinds_cases [OF assms(1)] match_rest_bracket [OF assms(2), of rest]
  by (auto simp: tag_kinds_def)

lemma match_tag_open:
  assumes "k \<in> set tag_kinds" "CHR '']'' \<notin> set r"
  shows "match_tag (CHR ''['' # k @ r @ CHR '']'' # rest) = Some (length (CHR ''['' # k @ r @ '']''))"
proof -
  have "(case k @ r @ CHR '']'' # rest of [] \<Rightarrow> None
          | d # r' \<Rightarrow> if d = CHR ''/'' then match_keyword tag_kinds r' else None) = None"
    using tag_kinds_cases [OF assms(1)] by auto
  then show ?thesis
    using match_keyword_kind [OF assms, of rest] by (simp add: match_tag_def)
qed

lemma match_tag_close:
  assumes "k \<in> set tag_kinds" "CHR '']'' \<notin> set r"
  shows "match_tag (CHR ''['' # CHR ''/'' # k @ r @ CHR '']'' # rest) =
           Some (length (CHR ''['' # CHR ''/'' # k @ r @ '']''))"
  using match_keyword_kind [OF assms, of rest] by (simp add: match_tag_def)

lemma match_tag_not_bracket: "c \<noteq> CHR ''['' \<Longrightarrow> match_tag (c # cs) = None"
  by (simp add: match_tag_def)

lemma re_split_tag:
  assumes "match_tag (t @ rest) = Some (length t)" "t \<noteq> []"
  shows "re_split acc (t @ rest) = acc # t # re_split [] rest"
proof -
  obtain c cs where t: "t = c # cs" using assms(2) by (cases t) auto
  show ?thesis using assms(1) by (simp add: t)
qed

lemma re_split_plain:
  "CHR ''['' \<notin> set s \<Longrightarrow> re_split acc (s @ rest) = re_split (acc @ s) rest"
  by (induction s arbitrary: acc) (auto simp: match_tag_not_bracket)

lemma re_split_no_tag: "\<not> has_tag raw \<Longrightarrow> re_split acc raw = [acc @ raw]"
  by (induction raw arbitrary: acc) auto

lemma bracketed_shape: "bracketed s = CHR ''['' # s @ '']''"
  by (simp add: bracketed_def)

lemma open_tag_shape: "open_tag k v = CHR ''['' # (k @ CHR ''='' # v) @ '']''"
  by (simp add: open_tag_def bracketed_def)

lemma close_tag_shape: "close_tag k = CHR ''['' # CHR ''/'' # k @ '']''"
  by (simp add: close_tag_def bracketed_def)

lemma parse_part_close_tag:
  "parse_part rt (segs, stack) (close_tag k) =
     (segs, if 1 < length stack then butlast stack else stack)"
  unfolding close_tag_shape by (rule parse_part_closing)

lemma parse_part_valid_open:
  assumes "valid_token rt (Open k v)"
  shows "\<exists>s'. parse_part rt (segs, stack) (open_tag k v) = (segs, stack @ [s'])"
proof -
  have k: "k \<in> set tag_kinds" using assms by simp
  have sl: "take 1 (k @ CHR ''='' # v) \<noteq> ''/''"
    using tag_kinds_cases [OF k] by auto
  have sp: "split_eq (k @ CHR ''='' # v) = Some (k, v)"
    using tag_kinds_chars(1) [OF k] by (rule split_eq_some)
  have eq: "parse_part rt (segs, stack) (CHR ''['' # (k @ CHR ''='' # v) @ '']'') =
     (if k = ''color'' then (segs, stack @ [(last stack)\<lparr>color := v\<rparr>])
      else if k = ''size'' then
        (case int_of_str rt 10 v of
           None \<Rightarrow> (segs @ [\<lparr>seg_text = CHR ''['' # (k @ CHR ''='' # v) @ '']'', seg_style = last stack\<rparr>], stack)
         | Some n \<Rightarrow> (segs, stack @ [(last stack)\<lparr>font_size := n\<rparr>]))
      else if k = ''spacing'' then
        (case float_of_str rt v of
           None \<Rightarrow> (segs @ [\<lparr>seg_text = CHR ''['' # (k @ CHR ''='' # v) @ '']'', seg_style = last stack\<rparr>], stack)
         | Some x \<Rightarrow> (segs, stack @ [(last stack)\<lparr>spacing := x\<rparr>]))
      else (segs, stack @ [last stack]))"
    by (rule parse_part_open [OF sl sp])
  show ?thesis
    unfolding open_tag_shape eq
    using assms by auto
qed

lemma parse_part_keeps:
  "\<not> is_tag s \<Longrightarrow> snd (parse_part rt (segs, stack) s) = stack"
  by (simp add: parse_part_def)

lemma no_bracket_not_tag: "CHR ''['' \<notin> set s \<Longrightarrow> \<not> is_tag s"
  by (cases s) (auto simp: is_tag_def)

lemma snd_parse_parts:
  "snd (parse_parts rt (segs, stack) ps) = snd (parse_parts rt ([], stack) ps)"
  using parse_parts_segs [of rt segs stack ps] by simp

lemma match_tag_open_tag:
  assumes "k \<in> set tag_kinds" "CHR '']'' \<notin> set v"
  shows "match_tag (open_tag k v @ rest) = Some (length (open_tag k v))"
proof -
  have "CHR '']'' \<notin> set (CHR ''='' # v)" using assms(2) by simp
  from match_tag_open [OF assms(1) this, of rest] show ?thesis
    by (simp add: open_tag_def bracketed_def)
qed

lemma match_tag_close_tag:
  assumes "k \<in> set tag_kinds"
  shows "match_tag (close_tag k @ rest) = Some (length (close_tag k))"
  using match_tag_close [OF assms, of "[]" rest] by (simp add: close_tag_def bracketed_def)

lemma re_split_markup:
  assumes "\<forall>t\<in>set ts. valid_token rt t"
  shows "re_split acc (markup_text ts) = chunks acc ts"
  using assms
proof (induction ts arbitrary: acc)
  case Nil
  show ?case by (simp add: markup_text_def)
next
  case (Cons t ts)
  have ih: "\<And>a. re_split a (markup_text ts) = chunks a ts" using Cons by simp
  show ?case
  proof (cases t)
    case (Text s)
    then have "CHR ''['' \<notin> set s" using Cons.prems by simp
    then have "re_split acc (s @ markup_text ts) = re_split (acc @ s) (markup_text ts)"
      by (rule re_split_plain)
    then show ?thesis using Text ih by (simp add: markup_text_def)
  next
    case (Open k v)
    then have "k \<in> set tag_kinds" "CHR '']'' \<notin> set v" using Cons.prems by simp_all
    then have m: "match_tag (open_tag k v @ markup_text ts) = Some (length (open_tag k v))"
      by (rule match_tag_open_tag)
    have "open_tag k v \<noteq> []" by (simp add: open_tag_def bracketed_def)
    then have "re_split acc (open_tag k v @ markup_text ts) =
                 acc # open_tag k v # re_split [] (markup_text ts)"
      using m by (simp add: re_split_tag)
    then show ?thesis using Open ih by (simp add: markup_text_def)
  next
    case (Close k)
    then have "k \<in> set tag_kinds" using Cons.prems by simp
    then have m: "match_tag (close_tag k @ markup_text ts) = Some (length (close_tag k))"
      by (rule match_tag_close_tag)
    have "close_tag k \<noteq> []" by (simp add: close_tag_def bracketed_def)
    then have "re_split acc (close_tag k @ markup_text ts) =
                 acc # close_tag k # re_split [] (markup_text ts)"
      using m by (simp add: re_split_tag)
    then show ?thesis using Close ih by (simp add: markup_text_def)
  qed
qed

lemma chunks_stack:
  assumes "\<forall>t\<in>set ts. valid_token rt t" "CHR ''['' \<notin> set acc"
  shows "snd (parse_parts rt (segs, stack) (chunks acc ts)) =
         snd (parse_parts rt (segs, stack) (map part_of ts))"
  using assms
proof (induction ts arbitrary: acc segs stack)
  case Nil
  have "\<not> is_tag acc" using Nil.prems(2) by (rule no_bracket_not_tag)
  then show ?case by (simp add: parse_parts_Cons parse_parts_Nil parse_part_keeps)
next
  case (Cons t ts)
  have na: "\<not> is_tag acc" using Cons.prems(2) by (rule no_bracket_not_tag)
  obtain sa where pa: "parse_part rt (segs, stack) acc = (sa, stack)"
    using parse_part_keeps [OF na, of rt segs stack]
    by (cases "parse_part rt (segs, stack) acc") auto
  have ih: "\<And>a sg sk. CHR ''['' \<notin> set a \<Longrightarrow>
              snd (parse_parts rt (sg, sk) (chunks a ts)) =
              snd (parse_parts rt (sg, sk) (map part_of ts))"
    using Cons.IH Cons.prems(1) by simp
  show ?case
  proof (cases t)
    case (Text s)
    then have ns: "CHR ''['' \<notin> set s" using Cons.prems(1) by simp
    then have "\<not> is_tag s" by (rule no_bracket_not_tag)
    then obtain ss where ps: "parse_part rt (segs, stack) s = (ss, stack)"
      using parse_part_keeps [of s rt segs stack]
      by (cases "parse_part rt (segs, stack) s") auto
    have "snd (parse_parts rt (segs, stack) (chunks (acc @ s) ts)) =
          snd (parse_parts rt (segs, stack) (map part_of ts))"
      using ih [of "acc @ s" segs stack] Cons.prems(2) ns by simp
    also have "\<dots> = snd (parse_parts rt (ss, stack) (map part_of ts))"
      using snd_parse_parts [of rt segs stack] snd_parse_parts [of rt ss stack] by simp
    finally show ?thesis using Text ps by (simp add: parse_parts_Cons)
  next
    case (Open k v)
    obtain s1 k1 where p1: "parse_part rt (segs, stack) (open_tag k v) = (s1, k1)"
      by (cases "parse_part rt (segs, stack) (open_tag k v)")
    obtain s2 k2 where p2: "parse_part rt (sa, stack) (open_tag k v) = (s2, k2)"
      by (cases "parse_part rt (sa, stack) (open_tag k v)")
    have "k1 = k2"
      using parse_part_segs [of rt segs stack "open_tag k v"]
        parse_part_segs [of rt sa stack "open_tag k v"] p1 p2 by simp
    then have "snd (parse_parts rt (s2, k2) (chunks [] ts)) =
               snd (parse_parts rt (s1, k1) (map part_of ts))"
      using ih [of "[]" s2 k2] snd_parse_parts [of rt s2 k2] snd_parse_parts [of rt s1 k1] by simp
    then show ?thesis using Open pa p1 p2 by (simp add: parse_parts_Cons)
  next
    case (Close k)
    obtain s1 k1 where p1: "parse_part rt (segs, stack) (close_tag k) = (s1, k1)"
      by (cases "parse_part rt (segs, stack) (close_tag k)")
    obtain s2 k2 where p2: "parse_part rt (sa, stack) (close_tag k) = (s2, k2)"
      by (cases "parse_part rt (sa, stack) (close_tag k)")
    have "k1 = k2"
      using parse_part_segs [of rt segs stack "close_tag k"]
        parse_part_segs [of rt sa stack "close_tag k"] p1 p2 by simp
    then have "snd (parse_parts rt (s2, k2) (chunks [] ts)) =
               snd (parse_parts rt (s1, k1) (map part_of ts))"
      using ih [of "[]" s2 k2] snd_parse_parts [of rt s2 k2] snd_parse_parts [of rt s1 k1] by simp
    then show ?thesis using Close pa p1 p2 by (simp add: parse_parts_Cons)
  qed
qed

lemma nesting_stack:
  assumes "\<forall>t\<in>set ts. valid_token rt t" "base \<noteq> []" "nesting ts (length ext) = Some d'"
  shows "\<exists>ext'. length ext' = d' \<and>
           snd (parse_parts rt (segs, base @ ext) (map part_of ts)) = base @ ext'"
  using assms
proof (induction ts arbitrary: segs ext)
  case Nil
  then show ?case by (simp add: parse_parts_Nil)
next
  case (Cons t ts)
  show ?case
  proof (cases t)
    case (Text s)
    have v: "\<not> is_tag s" using Cons.prems(1) Text by (simp add: no_bracket_not_tag)
    obtain segs' where st: "parse_part rt (segs, base @ ext) s = (segs', base @ ext)"
      using parse_part_keeps [OF v, of rt segs "base @ ext"]
      by (cases "parse_part rt (segs, base @ ext) s") auto
    have "\<exists>ext'. length ext' = d' \<and>
            snd (parse_parts rt (segs', base @ ext) (map part_of ts)) = base @ ext'"
      using Cons.IH [of ext segs'] Cons.prems Text by simp
    then show ?thesis using Text st by (simp add: parse_parts_Cons)
  next
    case (Open k v)
    have vt: "valid_token rt (Open k v)" using Cons.prems(1) Open by simp
    obtain s' where st: "parse_part rt (segs, base @ ext) (open_tag k v) = (segs, (base @ ext) @ [s'])"
      using parse_part_valid_open [OF vt] by blast
    have "\<exists>ext'. length ext' = d' \<and>
            snd (parse_parts rt (segs, base @ (ext @ [s'])) (map part_of ts)) = base @ ext'"
      using Cons.IH [of "ext @ [s']" segs] Cons.prems Open by simp
    then show ?thesis using Open st by (simp add: parse_parts_Cons)
  next
    case (Close k)
    obtain d where d: "length ext = Suc d" "nesting ts d = Some d'"
      using Cons.prems(3) Close by (cases "length ext") auto
    have ne: "ext \<noteq> []" using d(1) by auto
    have st: "parse_part rt (segs, base @ ext) (close_tag k) = (segs, base @ butlast ext)"
      using ne Cons.prems(2) by (cases base) (simp_all add: parse_part_close_tag butlast_append)
    have "\<exists>ext'. length ext' = d' \<and>
            snd (parse_parts rt (segs, base @ butlast ext) (map part_of ts)) = base @ ext'"
      using Cons.IH [of "butlast ext" segs] Cons.prems(1,2) d by simp
    then show ?thesis using Close st by (simp add: parse_parts_Cons)
  qed
qed


lemma extended_kind_unknown:
  assumes "k \<in> set tag_kinds" "ext \<noteq> []"
  shows "k @ ext \<noteq> ''color''" "k @ ext \<noteq> ''size''" "k @ ext \<noteq> ''spacing''"
  using tag_kinds_cases [OF assms(1)] assms(2) by auto

lemma malformed_split:
  assumes "malformed rt k r"
  shows "split_eq (k @ r) = None \<or>
         (\<exists>v. r = CHR ''='' # v \<and> split_eq (k @ r) = Some (k, v) \<and>
              ((k = ''size'' \<and> int_of_str rt 10 v = None) \<or>
               (k = ''spacing'' \<and> float_of_str rt v = None)))"
proof -
  have k: "k \<in> set tag_kinds" using assms by (simp add: malformed_def)
  note ke = tag_kinds_chars(1) [OF k]
  show ?thesis
  proof (cases "CHR ''='' \<in> set r")
    case False
    then have "split_eq (k @ r) = None" using ke by (simp add: split_eq_none)
    then show ?thesis by simp
  next
    case True
    then have c: "(k = ''size'' \<and> take 1 r = ''='' \<and> int_of_str rt 10 (tl r) = None) \<or>
                  (k = ''spacing'' \<and> take 1 r = ''='' \<and> float_of_str rt (tl r) = None)"
      using assms by (simp add: malformed_def)
    then have "take 1 r = ''=''" by auto
    then obtain v where r: "r = CHR ''='' # v" by (cases r) auto
    have "split_eq (k @ r) = Some (k, v)" unfolding r using ke by (rule split_eq_some)
    then show ?thesis using c r by auto
  qed
qed

lemma parse_part_malformed:
  assumes "malformed rt k r"
  shows "parse_part rt (segs, stack) (bracketed (k @ r)) =
           (segs @ [\<lparr>seg_text = bracketed (k @ r), seg_style = last stack\<rparr>], stack)"
proof -
  have k: "k \<in> set tag_kinds" using assms by (simp add: malformed_def)
  have sl: "take 1 (k @ r) \<noteq> ''/''" using tag_kinds_cases [OF k] by auto
  from malformed_split [OF assms] show ?thesis
  proof
    assume "split_eq (k @ r) = None"
    then show ?thesis unfolding bracketed_shape by (rule parse_part_literal_tag [OF sl])
  next
    assume "\<exists>v. r = CHR ''='' # v \<and> split_eq (k @ r) = Some (k, v) \<and>
              ((k = ''size'' \<and> int_of_str rt 10 v = None) \<or>
               (k = ''spacing'' \<and> float_of_str rt v = None))"
    then obtain v where v: "split_eq (k @ r) = Some (k, v)"
      "(k = ''size'' \<and> int_of_str rt 10 v = None) \<or> (k = ''spacing'' \<and> float_of_str rt v = None)"
      by blast
    show ?thesis unfolding bracketed_shape parse_part_open [OF sl v(1)] using v(2) by auto
  qed
qed

lemma match_tag_malformed:
  assumes "malformed rt k r"
  shows "match_tag (bracketed (k @ r) @ rest) = Some (length (bracketed (k @ r)))"
proof -
  have "k \<in> set tag_kinds" "CHR '']'' \<notin> set r" using assms by (simp_all add: malformed_def)
  from match_tag_open [OF this, of rest] show ?thesis by (simp add: bracketed_def)
qed

lemma match_rest_extend:
  assumes "CHR '']'' \<in> set s"
  shows "match_rest (s @ rest) = match_rest s"
proof -
  have t: "takeWhile (\<lambda>c. c \<noteq> CHR '']'') (s @ rest) = takeWhile (\<lambda>c. c \<noteq> CHR '']'') s"
    using assms by (intro takeWhile_append1 [of "CHR '']''"]) simp_all
  have "takeWhile (\<lambda>c. c \<noteq> CHR '']'') s \<noteq> s"
    using assms by (auto simp: takeWhile_eq_all_conv)
  then have "length (takeWhile (\<lambda>c. c \<noteq> CHR '']'') s) < length s"
    using length_takeWhile_le [of "\<lambda>c. c \<noteq> CHR '']''" s]
    by (metis le_neq_implies_less takeWhile_eq_take take_all_iff order_refl)
  then show ?thesis by (simp add: match_rest_def t)
qed

lemma match_keyword_extend:
  assumes "CHR '']'' \<in> set s" "\<forall>k\<in>set ks. CHR '']'' \<notin> set k"
  shows "match_keyword ks (s @ rest) = match_keyword ks s"
  using assms(2)
proof (induction ks)
  case Nil
  show ?case by simp
next
  case (Cons k ks)
  have ih: "match_keyword ks (s @ rest) = match_keyword ks s" using Cons by simp
  have nk: "CHR '']'' \<notin> set k" using Cons.prems by simp
  show ?case
  proof (cases "take (length k) s = k")
    case True
    then have le: "length k \<le> length s" by (metis length_take min.cobounded2 min.commute)
    have "CHR '']'' \<in> set (take (length k) s @ drop (length k) s)" using assms(1) by simp
    then have d: "CHR '']'' \<in> set (drop (length k) s)" using True nk by (metis Un_iff set_append)
    show ?thesis using True le ih match_rest_extend [OF d, of rest] by (auto split: option.splits)
  next
    case False
    have "take (length k) (s @ rest) \<noteq> k"
    proof
      assume e: "take (length k) (s @ rest) = k"
      show False
      proof (cases "length k \<le> length s")
        case True
        then show False using e False by simp
      next
        case short: False
        then have "take (length k) (s @ rest) = s @ take (length k - length s) rest" by simp
        then have "set s \<subseteq> set k" using e by (metis Un_upper1 set_append)
        then show False using assms(1) nk by auto
      qed
    qed
    then show ?thesis using False ih by simp
  qed
qed

lemma tag_kinds_no_bracket: "\<forall>k\<in>set tag_kinds. CHR '']'' \<notin> set k"
  by (simp add: tag_kinds_def)

lemma match_tag_extend:
  assumes "CHR '']'' \<in> set s"
  shows "match_tag (s @ rest) = match_tag s"
proof (cases s)
  case Nil
  then show ?thesis using assms by simp
next
  case (Cons c r)
  show ?thesis
  proof (cases "c = CHR ''[''")
    case False
    then show ?thesis by (simp add: Cons match_tag_def)
  next
    case True
    then have r: "CHR '']'' \<in> set r" using assms Cons by auto
    note k = match_keyword_extend [OF _ tag_kinds_no_bracket]
    show ?thesis
    proof (cases r)
      case Nil
      then show ?thesis using r by simp
    next
      case (Cons d r')
      show ?thesis
      proof (cases "d = CHR ''/''")
        case True
        then have "CHR '']'' \<in> set r'" using r Cons by auto
        then show ?thesis using k [OF r, of rest] k [of r' rest] \<open>s = c # r\<close> Cons
          by (auto simp: match_tag_def split: option.splits)
      next
        case False
        then show ?thesis using k [OF r, of rest] \<open>s = c # r\<close> Cons
          by (auto simp: match_tag_def split: option.splits)
      qed
    qed
  qed
qed

lemma match_rest_Some:
  assumes "match_rest s = Some n"
  shows "CHR '']'' \<in> set s \<and> n \<le> length s"
proof -
  let ?t = "takeWhile (\<lambda>c. c \<noteq> CHR '']'') s"
  have l: "length ?t < length s" and n: "n = Suc (length ?t)"
    using assms by (auto simp: match_rest_def Let_def split: if_splits)
  have "CHR '']'' \<in> set s"
  proof (rule ccontr)
    assume "CHR '']'' \<notin> set s"
    then have "?t = s" by (auto simp: takeWhile_eq_all_conv)
    then show False using l by (metis less_irrefl)
  qed
  then show ?thesis using l n by simp
qed

lemma match_keyword_Some:
  assumes "match_keyword ks s = Some n"
  shows "CHR '']'' \<in> set s \<and> n \<le> length s"
  using assms
proof (induction ks)
  case Nil
  then show ?case by simp
next
  case (Cons k ks)
  show ?case
  proof (cases "take (length k) s = k \<and> match_rest (drop (length k) s) \<noteq> None")
    case True
    then obtain m where m: "match_rest (drop (length k) s) = Some m" by auto
    then have n: "n = length k + m" using Cons.prems True by simp
    have le: "length k \<le> length s" using True by (metis length_take min.cobounded2 min.commute)
    have "CHR '']'' \<in> set (drop (length k) s) \<and> m \<le> length (drop (length k) s)"
      using m by (rule match_rest_Some)
    then show ?thesis using n le by (auto dest: in_set_dropD)
  next
    case False
    then have "match_keyword ks s = Some n" using Cons.prems by (auto split: option.splits if_splits)
    then show ?thesis by (rule Cons.IH)
  qed
qed

lemma match_tag_Some:
  assumes "match_tag s = Some n"
  shows "CHR '']'' \<in> set s \<and> n \<le> length s \<and> 0 < n"
proof (cases s)
  case Nil
  then show ?thesis using assms by (simp add: match_tag_def)
next
  case (Cons c r)
  then have c: "c = CHR ''[''" using assms by (auto simp: match_tag_def split: if_splits)
  show ?thesis
  proof (cases "\<exists>m. (case r of [] \<Rightarrow> None
                      | d # r' \<Rightarrow> if d = CHR ''/'' then match_keyword tag_kinds r' else None) = Some m")
    case True
    then obtain m where m: "(case r of [] \<Rightarrow> None
                      | d # r' \<Rightarrow> if d = CHR ''/'' then match_keyword tag_kinds r' else None) = Some m"
      by blast
    then obtain d r' where r: "r = d # r'" "match_keyword tag_kinds r' = Some m"
      by (cases r) (auto split: if_splits)
    have n: "n = Suc (Suc m)" using assms Cons c m by (simp add: match_tag_def)
    show ?thesis using match_keyword_Some [OF r(2)] n r(1) Cons by auto
  next
    case False
    then have f: "(case r of [] \<Rightarrow> None
                      | d # r' \<Rightarrow> if d = CHR ''/'' then match_keyword tag_kinds r' else None) = None"
      by (cases "case r of [] \<Rightarrow> None
                      | d # r' \<Rightarrow> if d = CHR ''/'' then match_keyword tag_kinds r' else None") auto
    then obtain m where m: "match_keyword tag_kinds r = Some m" "n = Suc m"
      using assms Cons c by (auto simp: match_tag_def split: option.splits)
    show ?thesis using match_keyword_Some [OF m(1)] m(2) Cons by auto
  qed
qed

lemma closed_from_append:
  "closed_from b (xs @ ys) = closed_from (\<not> closed_from b xs) ys"
  by (induction xs arbitrary: b) auto

lemma closed_from_True_bracket: "closed_from True s \<Longrightarrow> CHR '']'' \<in> set s"
proof (induction s)
  case Nil
  then show ?case by simp
next
  case (Cons c cs)
  then show ?case by (cases "c = CHR '']''") (auto split: if_splits)
qed

lemma re_split_closed:
  assumes "closed_from b pre" "match_tag (t @ post) = Some (length t)" "t \<noteq> []"
  shows "re_split acc (pre @ t @ post) = re_split acc pre @ t # re_split [] post"
  using assms(1)
proof (induction pre arbitrary: acc b rule: length_induct)
  case (1 pre)
  show ?case
  proof (cases pre)
    case Nil
    then show ?thesis using re_split_tag [OF assms(2,3), of acc] by simp
  next
    case (Cons c cs)
    show ?thesis
    proof (cases "match_tag (c # cs)")
      case (Some n)
      note ms = match_tag_Some [OF Some]
      have me: "match_tag (c # cs @ t @ post) = Some n"
        using match_tag_extend [of "c # cs" "t @ post"] ms Some by simp
      define m where "m = n - 1"
      have mle: "m \<le> length cs" using ms unfolding m_def by auto
      have cl: "closed_from (\<not> closed_from (if c = CHR ''['' then True else if c = CHR '']'' then False else b) (take m cs)) (drop m cs)"
        using "1.prems" Cons closed_from_append [of _ "take m cs" "drop m cs"] by simp
      have ih: "re_split [] (drop m cs @ t @ post) = re_split [] (drop m cs) @ t # re_split [] post"
        using "1.IH" [rule_format, of "drop m cs", OF _ cl] Cons by simp
      have "take n ((c # cs) @ (t @ post)) = take n (c # cs)"
        using ms by (subst take_append) simp
      then have tk: "take n (c # cs @ t @ post) = take n (c # cs)" by simp
      have dr: "drop m (cs @ t @ post) = drop m cs @ t @ post" using mle by simp
      show ?thesis using Some me ih tk dr by (simp add: Cons m_def)
    next
      case None
      have me: "match_tag (c # cs @ t @ post) = None"
      proof (cases "c = CHR ''[''")
        case False
        then show ?thesis by (rule match_tag_not_bracket)
      next
        case True
        then have "closed_from True cs" using "1.prems" Cons by simp
        then have "CHR '']'' \<in> set (c # cs)" using closed_from_True_bracket by simp
        then show ?thesis using match_tag_extend [of "c # cs" "t @ post"] None by simp
      qed
      have cl: "closed_from (if c = CHR ''['' then True else if c = CHR '']'' then False else b) cs"
        using "1.prems" Cons by simp
      have ih: "re_split (acc @ [c]) (cs @ t @ post) = re_split (acc @ [c]) cs @ t # re_split [] post"
        using "1.IH" [rule_format, of cs, OF _ cl] Cons by simp
      show ?thesis using None me ih by (simp add: Cons)
    qed
  qed
qed

lemma parse_rich_text_after_closed:
  assumes "malformed rt k r" and "closed_brackets pre"
  shows "parse_rich_text rt (pre @ bracketed (k @ r) @ post) d =
           parse_rich_text rt pre d @
           \<lparr>seg_text = bracketed (k @ r),
             seg_style = last (snd (parse_parts rt ([], [d]) (re_split [] pre)))\<rparr> #
           fst (parse_parts rt ([], snd (parse_parts rt ([], [d]) (re_split [] pre)))
                  (re_split [] post))"
proof -
  let ?t = "bracketed (k @ r)"
  have ne: "?t \<noteq> []" by (simp add: bracketed_def)
  have cl: "closed_from False pre" using assms(2) by (simp add: closed_brackets_def)
  have sp: "re_split [] (pre @ ?t @ post) = re_split [] pre @ ?t # re_split [] post"
    using re_split_closed [OF cl match_tag_malformed [OF assms(1), of post] ne] .
  obtain sg S where a: "parse_parts rt ([], [d]) (re_split [] pre) = (sg, S)"
    by (cases "parse_parts rt ([], [d]) (re_split [] pre)")
  have b: "parse_parts rt ([], [d]) (re_split [] pre @ ?t # re_split [] post) =
           parse_parts rt (sg @ [\<lparr>seg_text = ?t, seg_style = last S\<rparr>], S) (re_split [] post)"
    by (simp add: parse_parts_append parse_parts_Cons a parse_part_malformed [OF assms(1)])
  have c: "parse_parts rt (sg @ [\<lparr>seg_text = ?t, seg_style = last S\<rparr>], S) (re_split [] post) =
           ((sg @ [\<lparr>seg_text = ?t, seg_style = last S\<rparr>]) @ fst (parse_parts rt ([], S) (re_split [] post)),
            snd (parse_parts rt ([], S) (re_split [] post)))"
    by (rule parse_parts_segs)
  show ?thesis by (simp add: parse_rich_text_def sp a b c)
qed

text \<open>
  The stack discipline, for markup whose literal text has no opening bracket. A closing
  tag pops one level whatever attribute it names, and does nothing when only the base
  style is left. After an opening tag, a well-nested body and a closing tag, the stack
  (and so the current style) is what it was before the opening tag, for the parts as for
  the text they are split from. The stack is never empty and its bottom element is the
  default style.
\<close>

lemma nested_tags_restore_stack:
  assumes "stack \<noteq> []"
    and "valid_token rt (Open k v)"
    and "list_all (valid_token rt) body"
    and "nesting body 0 = Some 0"
    and "k' \<in> set tag_kinds"
  shows "parse_part rt (segs, stack) (close_tag k') =
           (segs, if 1 < length stack then butlast stack else stack) \<and>
         snd (parse_parts rt (segs, stack) (open_tag k v # map part_of body @ [close_tag k'])) = stack \<and>
         snd (parse_parts rt (segs, stack)
                (re_split [] (markup_text (Open k v # body @ [Close k'])))) = stack \<and>
         parse_part rt (segs, [d]) (close_tag k') = (segs, [d]) \<and>
         snd (parse_parts rt ([], [d]) parts) \<noteq> [] \<and>
         hd (snd (parse_parts rt ([], [d]) parts)) = d"
proof -
  have pop: "\<And>sg st. parse_part rt (sg, st) (close_tag k') =
               (sg, if 1 < length st then butlast st else st)"
    by (rule parse_part_close_tag)
  obtain s' where op: "parse_part rt (segs, stack) (open_tag k v) = (segs, stack @ [s'])"
    using parse_part_valid_open [OF assms(2)] by blast
  have vb: "\<forall>t\<in>set body. valid_token rt t" using assms(3) by (simp add: list_all_iff)
  have "\<exists>ext'. length ext' = 0 \<and>
          snd (parse_parts rt (segs, (stack @ [s']) @ []) (map part_of body)) = (stack @ [s']) @ ext'"
    by (rule nesting_stack [OF vb]) (simp_all add: assms(4))
  then have bd: "snd (parse_parts rt (segs, stack @ [s']) (map part_of body)) = stack @ [s']"
    by simp
  obtain sg where mid: "parse_parts rt (segs, stack @ [s']) (map part_of body) = (sg, stack @ [s'])"
    using bd by (cases "parse_parts rt (segs, stack @ [s']) (map part_of body)") auto
  have nested: "snd (parse_parts rt (segs, stack) (open_tag k v # map part_of body @ [close_tag k'])) = stack"
    using assms(1) by (simp add: parse_parts_Cons parse_parts_append op mid pop parse_parts_Nil)
  have inv: "snd (parse_parts rt ([], [d]) parts) \<noteq> [] \<and> hd (snd (parse_parts rt ([], [d]) parts)) = d"
    using parse_parts_stack_inv [of "[d]" rt "[]" parts] by simp
  have vt: "\<forall>t\<in>set (Open k v # body @ [Close k']). valid_token rt t"
    using assms(2,5) vb by auto
  have "snd (parse_parts rt (segs, stack) (re_split [] (markup_text (Open k v # body @ [Close k'])))) =
        snd (parse_parts rt (segs, stack) (map part_of (Open k v # body @ [Close k'])))"
    unfolding re_split_markup [OF vt] by (rule chunks_stack [OF vt]) simp
  then have whole: "snd (parse_parts rt (segs, stack)
                      (re_split [] (markup_text (Open k v # body @ [Close k'])))) = stack"
    using nested by simp
  show ?thesis using pop [of segs stack] pop [of segs "[d]"] nested whole inv by simp
qed

text \<open>
  C3. A malformed opening tag (no \<^verbatim>\<open>=\<close>, or a size or spacing value that does not parse)
  is split off by the tokenizer as one part and the scan goes on with the text after it;
  the parser emits a segment whose text is the raw tag, brackets included, in the style on
  top of the stack, and goes on with the remaining parts. For the parser as a whole:
  after a text whose brackets are closed, the tag gives the segments of that text, then
  the literal segment in the style that is current after that text, then the segments of
  the remaining input.
\<close>

theorem malformed_tag_becomes_literal:
  assumes "malformed rt k r" and "closed_brackets pre"
  shows "re_split acc (bracketed (k @ r) @ rest) = acc # bracketed (k @ r) # re_split [] rest \<and>
         parse_parts rt (segs, stack) (bracketed (k @ r) # parts) =
           parse_parts rt (segs @ [\<lparr>seg_text = bracketed (k @ r), seg_style = last stack\<rparr>], stack) parts \<and>
         parse_rich_text rt (pre @ bracketed (k @ r) @ post) d =
           parse_rich_text rt pre d @
           \<lparr>seg_text = bracketed (k @ r),
             seg_style = last (snd (parse_parts rt ([], [d]) (re_split [] pre)))\<rparr> #
           fst (parse_parts rt ([], snd (parse_parts rt ([], [d]) (re_split [] pre)))
                  (re_split [] post))"
proof -
  have "bracketed (k @ r) \<noteq> []" by (simp add: bracketed_def)
  then have a: "re_split acc (bracketed (k @ r) @ rest) = acc # bracketed (k @ r) # re_split [] rest"
    using match_tag_malformed [OF assms(1), of rest] by (simp add: re_split_tag)
  have b: "parse_parts rt (segs, stack) (bracketed (k @ r) # parts) =
           parse_parts rt (segs @ [\<lparr>seg_text = bracketed (k @ r), seg_style = last stack\<rparr>], stack) parts"
    by (simp add: parse_parts_Cons parse_part_malformed [OF assms(1)])
  show ?thesis using a b parse_rich_text_after_closed [OF assms, of post d] by blast
qed

text \<open>
  C9. A malformed opening tag leaves the style stack as it was: the parts after it are
  parsed as they would be without it, and the segments differ only by the literal segment
  of the tag.
\<close>
theorem malformed_tag_keeps_stack:
  assumes "malformed rt k r"
  shows "snd (parse_part rt (segs, stack) (bracketed (k @ r))) = stack \<and>
         snd (parse_parts rt (segs, stack) (bracketed (k @ r) # parts)) =
           snd (parse_parts rt (segs, stack) parts) \<and>
         fst (parse_parts rt (segs, stack) (bracketed (k @ r) # parts)) =
           segs @ \<lparr>seg_text = bracketed (k @ r), seg_style = last stack\<rparr> #
             fst (parse_parts rt ([], stack) parts) \<and>
         fst (parse_parts rt (segs, stack) parts) = segs @ fst (parse_parts rt ([], stack) parts)"
proof -
  let ?lit = "\<lparr>seg_text = bracketed (k @ r), seg_style = last stack\<rparr>"
  have a: "parse_parts rt (segs, stack) (bracketed (k @ r) # parts) =
             parse_parts rt (segs @ [?lit], stack) parts"
    by (simp add: parse_parts_Cons parse_part_malformed [OF assms])
  have b: "parse_parts rt (segs @ [?lit], stack) parts =
             ((segs @ [?lit]) @ fst (parse_parts rt ([], stack) parts), snd (parse_parts rt ([], stack) parts))"
    by (rule parse_parts_segs)
  have c: "parse_parts rt (segs, stack) parts =
             (segs @ fst (parse_parts rt ([], stack) parts), snd (parse_parts rt ([], stack) parts))"
    by (rule parse_parts_segs)
  show ?thesis by (simp add: a b c parse_part_malformed [OF assms])
qed

text \<open>
  C10. An opening tag whose attribute name extends a known kind (\<^verbatim>\<open>[sizes=10]\<close>) is matched
  by the tokenizer, pushes a copy of the current style and emits no segment; a closing tag
  after it pops that copy.
\<close>
theorem extended_kind_pushes_copy:
  assumes "k \<in> set tag_kinds" and "ext \<noteq> []"
    and "CHR ''='' \<notin> set ext" and "CHR '']'' \<notin> set ext" and "CHR '']'' \<notin> set v"
    and "stack \<noteq> []" and "k' \<in> set tag_kinds"
  shows "match_tag (bracketed (k @ ext @ ''='' @ v) @ rest) =
           Some (length (bracketed (k @ ext @ ''='' @ v))) \<and>
         parse_part rt (segs, stack) (bracketed (k @ ext @ ''='' @ v)) = (segs, stack @ [last stack]) \<and>
         parse_parts rt (segs, stack) [bracketed (k @ ext @ ''='' @ v), close_tag k'] = (segs, stack)"
proof -
  have nb: "CHR '']'' \<notin> set (ext @ ''='' @ v)" using assms(4,5) by simp
  have m: "match_tag (bracketed (k @ ext @ ''='' @ v) @ rest) =
             Some (length (bracketed (k @ ext @ ''='' @ v)))"
    using match_tag_open [OF assms(1) nb, of rest] by (simp add: bracketed_def)
  have sl: "take 1 ((k @ ext) @ CHR ''='' # v) \<noteq> ''/''"
    using tag_kinds_cases [OF assms(1)] by auto
  have "CHR ''='' \<notin> set (k @ ext)" using tag_kinds_chars(1) [OF assms(1)] assms(3) by simp
  then have sp: "split_eq ((k @ ext) @ CHR ''='' # v) = Some (k @ ext, v)" by (rule split_eq_some)
  have "parse_part rt (segs, stack) (CHR ''['' # ((k @ ext) @ CHR ''='' # v) @ '']'') =
          (segs, stack @ [last stack])"
    unfolding parse_part_open [OF sl sp] using extended_kind_unknown [OF assms(1,2)] by simp
  then have p: "parse_part rt (segs, stack) (bracketed (k @ ext @ ''='' @ v)) = (segs, stack @ [last stack])"
    by (simp add: bracketed_def)
  have "parse_parts rt (segs, stack) [bracketed (k @ ext @ ''='' @ v), close_tag k'] = (segs, stack)"
    using assms(6) p by (simp add: parse_parts_Cons parse_parts_Nil parse_part_close_tag)
  then show ?thesis using m p by simp
qed

text \<open>
  C6 (amended). A non-empty text without a tag that does not both start with \<^verbatim>\<open>[\<close> and
  end with \<^verbatim>\<open>]\<close> parses to one segment: the text in the default style.
\<close>
theorem plain_text_single_segment:
  assumes "raw \<noteq> []" and "\<not> has_tag raw" and "\<not> is_tag raw"
  shows "parse_rich_text rt raw d = [\<lparr>seg_text = raw, seg_style = d\<rparr>]"
  using assms
  by (simp add: parse_rich_text_def re_split_no_tag parse_parts_Cons parse_parts_Nil parse_part_plain)



lemma nested_tags_restore_stack_example:
  "valid_token exact_runtime (Open ''size'' ''20'') \<and>
   list_all (valid_token exact_runtime)
     [Text ''A'', Open ''size'' ''10'', Text ''B'', Close ''size'', Text ''C''] \<and>
   nesting [Text ''A'', Open ''size'' ''10'', Text ''B'', Close ''size'', Text ''C''] 0 = Some 0 \<and>
   parse_part exact_runtime ([], [black40, red12]) (close_tag ''color'') = ([], [black40]) \<and>
   snd (parse_parts exact_runtime ([], [black40, red12])
          (open_tag ''size'' ''20'' #
           map part_of [Text ''A'', Open ''size'' ''10'', Text ''B'', Close ''size'', Text ''C''] @
           [close_tag ''color''])) = [black40, red12] \<and>
   snd (parse_parts exact_runtime ([], [black40, red12])
          (re_split [] ''[size=20]A[size=10]B[/size]C[/color]'')) = [black40, red12] \<and>
   parse_part exact_runtime ([], [black40]) (close_tag ''color'') = ([], [black40]) \<and>
   hd (snd (parse_parts exact_runtime ([], [black40]) [''[/size]'', ''[/size]'', ''x''])) = black40"
proof -
  let ?body = "[Text ''A'', Open ''size'' ''10'', Text ''B'', Close ''size'', Text ''C'']"
  have h1: "[black40, red12] \<noteq> []" by simp
  have h2: "valid_token exact_runtime (Open ''size'' ''20'')" by code_simp
  have h3: "list_all (valid_token exact_runtime) ?body" by code_simp
  have h4: "nesting ?body 0 = Some 0" by simp
  have h5: "''color'' \<in> set tag_kinds" by (simp add: tag_kinds_def)
  show ?thesis
    using nested_tags_restore_stack [OF h1 h2 h3 h4 h5, of "[]" black40 "[''[/size]'', ''[/size]'', ''x'']"]
      h2 h3 h4
    by (simp add: markup_text_def open_tag_def close_tag_def bracketed_def)
qed

text \<open>
  C2. The claim: after a closing tag the style is the one that was active before the
  matching opening tag. The code: in \<^verbatim>\<open>[size=20][x=1][/size]A\<close> the tokenizer leaves
  \<^verbatim>\<open>[x=1]\<close> as literal text between the two tags; the parser takes every part that
  starts with \<^verbatim>\<open>[\<close> and ends with \<^verbatim>\<open>]\<close> for a tag, so the literal pushes a copy of the
  style and emits no segment, the closing tag pops that copy, and \<^verbatim>\<open>A\<close> is set in size 20
  where the style before the opening tag has size 40.
\<close>

theorem bracketed_literal_breaks_nesting:
  "re_split [] ''[size=20][x=1][/size]A'' = [[], ''[size=20]'', ''[x=1]'', ''[/size]'', ''A''] \<and>
   parse_rich_text exact_runtime ''[size=20][x=1][/size]A'' black40 =
     [\<lparr>seg_text = ''A'', seg_style = \<lparr>color = ''#000000'', font_size = 20, spacing = 3 / 2\<rparr>\<rparr>] \<and>
   font_size black40 = 40"
proof -
  have a: "re_split [] ''[size=20][x=1][/size]A'' = [[], ''[size=20]'', ''[x=1]'', ''[/size]'', ''A'']"
    by code_simp
  have b: "parse_rich_text exact_runtime ''[size=20][x=1][/size]A'' black40 =
     [\<lparr>seg_text = ''A'', seg_style = \<lparr>color = ''#000000'', font_size = 20, spacing = 3 / 2\<rparr>\<rparr>]"
    by code_simp
  have c: "font_size black40 = 40" by (simp add: black40_def)
  show ?thesis using a b c by blast
qed

theorem malformed_tag_becomes_literal_witness:
  "malformed exact_runtime ''size'' ''=abc'' \<and> closed_brackets ''[color=#ff0000]Hi '' \<and>
   re_split [] (bracketed (''size'' @ ''=abc'') @ ''x'') = [[], ''[size=abc]'', ''x''] \<and>
   parse_parts exact_runtime ([], [black40, red12]) [bracketed (''size'' @ ''=abc''), ''x''] =
     ([\<lparr>seg_text = ''[size=abc]'', seg_style = red12\<rparr>, \<lparr>seg_text = ''x'', seg_style = red12\<rparr>],
      [black40, red12]) \<and>
   parse_rich_text exact_runtime ''[color=#ff0000]Hi [size=abc]x[/color]y'' black40 =
     [\<lparr>seg_text = ''Hi '', seg_style = red40\<rparr>,
      \<lparr>seg_text = ''[size=abc]'', seg_style = red40\<rparr>,
      \<lparr>seg_text = ''x'', seg_style = red40\<rparr>,
      \<lparr>seg_text = ''y'', seg_style = black40\<rparr>]"
proof -
  have h: "malformed exact_runtime ''size'' ''=abc''" by code_simp
  have c: "closed_brackets ''[color=#ff0000]Hi ''" by code_simp
  note t = malformed_tag_becomes_literal [OF h c, of "[]" "''x''" "[]" "[black40, red12]" "[''x'']"
      "''x[/color]y''" black40]
  have e: "parse_parts exact_runtime ([\<lparr>seg_text = ''[size=abc]'', seg_style = red12\<rparr>], [black40, red12]) [''x'']
     = ([\<lparr>seg_text = ''[size=abc]'', seg_style = red12\<rparr>, \<lparr>seg_text = ''x'', seg_style = red12\<rparr>],
      [black40, red12])"
    by (simp add: parse_parts_def parse_part_def is_tag_def)
  have r: "re_split [] ''x'' = [''x'']" by (simp add: match_tag_def)
  have p1: "parse_rich_text exact_runtime ''[color=#ff0000]Hi '' black40 =
              [\<lparr>seg_text = ''Hi '', seg_style = red40\<rparr>]" by code_simp
  have p2: "snd (parse_parts exact_runtime ([], [black40]) (re_split [] ''[color=#ff0000]Hi '')) =
              [black40, red40]" by code_simp
  have p3: "fst (parse_parts exact_runtime ([], [black40, red40]) (re_split [] ''x[/color]y'')) =
              [\<lparr>seg_text = ''x'', seg_style = red40\<rparr>, \<lparr>seg_text = ''y'', seg_style = black40\<rparr>]"
    by code_simp
  have a1: "re_split [] (bracketed (''size'' @ ''=abc'') @ ''x'') = [[], ''[size=abc]'', ''x'']"
    using t [THEN conjunct1] r by (simp add: bracketed_def)
  have a2: "parse_parts exact_runtime ([], [black40, red12]) [bracketed (''size'' @ ''=abc''), ''x''] =
     ([\<lparr>seg_text = ''[size=abc]'', seg_style = red12\<rparr>, \<lparr>seg_text = ''x'', seg_style = red12\<rparr>],
      [black40, red12])"
    using t [THEN conjunct2, THEN conjunct1] e by (simp add: bracketed_def)
  have a3: "parse_rich_text exact_runtime ''[color=#ff0000]Hi [size=abc]x[/color]y'' black40 =
     [\<lparr>seg_text = ''Hi '', seg_style = red40\<rparr>,
      \<lparr>seg_text = ''[size=abc]'', seg_style = red40\<rparr>,
      \<lparr>seg_text = ''x'', seg_style = red40\<rparr>,
      \<lparr>seg_text = ''y'', seg_style = black40\<rparr>]"
    using t [THEN conjunct2, THEN conjunct2] unfolding p1 p2 p3 by (simp add: bracketed_def)
  show ?thesis using h c a1 a2 a3 by blast
qed

theorem malformed_tag_keeps_stack_witness:
  "malformed exact_runtime ''spacing'' ''=wide'' \<and>
   snd (parse_part exact_runtime ([], [black40, red12]) (bracketed (''spacing'' @ ''=wide''))) =
     [black40, red12] \<and>
   snd (parse_parts exact_runtime ([], [black40, red12])
          [bracketed (''spacing'' @ ''=wide''), ''[/spacing]'', ''x'']) =
     snd (parse_parts exact_runtime ([], [black40, red12]) [''[/spacing]'', ''x'']) \<and>
   fst (parse_parts exact_runtime ([], [black40, red12])
          [bracketed (''spacing'' @ ''=wide''), ''[/spacing]'', ''x'']) =
     [\<lparr>seg_text = ''[spacing=wide]'', seg_style = red12\<rparr>, \<lparr>seg_text = ''x'', seg_style = black40\<rparr>]"
proof -
  have h: "malformed exact_runtime ''spacing'' ''=wide''" by code_simp
  have e: "fst (parse_parts exact_runtime ([], [black40, red12]) [''[/spacing]'', ''x'']) =
             [\<lparr>seg_text = ''x'', seg_style = black40\<rparr>]"
    by (simp add: parse_parts_def parse_part_def is_tag_def tag_content_def)
  show ?thesis
    using malformed_tag_keeps_stack [OF h, of "[]" "[black40, red12]" "[''[/spacing]'', ''x'']"] h e
    by (simp add: bracketed_def)
qed

theorem extended_kind_pushes_copy_witness:
  "match_tag (bracketed (''size'' @ ''s'' @ ''='' @ ''10'') @ ''x'') = Some 10 \<and>
   parse_part exact_runtime ([], [black40, red12]) ''[sizes=10]'' =
     ([], [black40, red12, red12]) \<and>
   parse_parts exact_runtime ([], [black40, red12]) [''[sizes=10]'', ''[/size]''] =
     ([], [black40, red12])"
proof -
  have h1: "''size'' \<in> set tag_kinds" by (simp add: tag_kinds_def)
  have h2: "''s'' \<noteq> []" by simp
  have h3: "CHR ''='' \<notin> set ''s''" by simp
  have h4: "CHR '']'' \<notin> set ''s''" by simp
  have h5: "CHR '']'' \<notin> set ''10''" by simp
  have h6: "[black40, red12] \<noteq> []" by simp
  show ?thesis
    using extended_kind_pushes_copy [OF h1 h2 h3 h4 h5 h6 h1, of "''x''" exact_runtime "[]"]
    by (simp add: bracketed_def close_tag_def)
qed

theorem plain_text_single_segment_witness:
  "''a[b]c'' \<noteq> [] \<and> \<not> has_tag ''a[b]c'' \<and> \<not> is_tag ''a[b]c'' \<and>
   parse_rich_text exact_runtime ''a[b]c'' black40 = [\<lparr>seg_text = ''a[b]c'', seg_style = black40\<rparr>]"
proof -
  have h1: "''a[b]c'' \<noteq> []" by simp
  have h2: "\<not> has_tag ''a[b]c''" by (simp add: match_tag_def tag_kinds_def)
  have h3: "\<not> is_tag ''a[b]c''" by (simp add: is_tag_def)
  show ?thesis
    using plain_text_single_segment [OF h1 h2 h3, of exact_runtime black40] h2 h3 by simp
qed

theorem plain_text_counterexample:
  "\<not> has_tag [] \<and> parse_rich_text exact_runtime [] black40 = [] \<and>
   \<not> has_tag ''[/x]'' \<and> parse_rich_text exact_runtime ''[/x]'' black40 = []"
  by (simp add: parse_rich_text_def parse_parts_def parse_part_def match_tag_def tag_kinds_def
      is_tag_def tag_content_def)

section \<open>Properties of the compositor\<close>


lemma clip_x_bounds:
  assumes "0 < clipped_w img bm x"
  shows "0 \<le> x + x_start_clip x"
    and "x + x_start_clip x + clipped_w img bm x \<le> int (snd (img_shape img))"
    and "0 \<le> x_start_clip x"
    and "x_start_clip x + clipped_w img bm x \<le> int (width bm)"
  using assms by (auto simp: clipped_w_def x_start_clip_def x_end_clip_def)

lemma clip_y_bounds:
  assumes "0 < clipped_h img bm y"
  shows "0 \<le> y + y_start_clip y"
    and "y + y_start_clip y + clipped_h img bm y \<le> int (fst (img_shape img))"
    and "0 \<le> y_start_clip y"
    and "y_start_clip y + clipped_h img bm y \<le> int (rows bm)"
  using assms by (auto simp: clipped_h_def y_start_clip_def y_end_clip_def)

lemma slice_bounds_in_range:
  "0 \<le> a \<Longrightarrow> a \<le> b \<Longrightarrow> b \<le> int n \<Longrightarrow> slice_bounds a b n = (nat a, nat b)"
  by (simp add: slice_bounds_def)

lemma py_slice_in_range:
  assumes "0 \<le> a" "a \<le> b" "b \<le> int (length xs)"
  shows "py_slice a b xs = take (nat (b - a)) (drop (nat a) xs)"
  using assms by (simp add: py_slice_def slice_bounds_in_range nat_diff_distrib)

lemma py_slice_length:
  assumes "0 \<le> a" "a \<le> b" "b \<le> int (length xs)"
  shows "length (py_slice a b xs) = nat (b - a)"
  using assms by (simp add: py_slice_in_range)

lemma py_slice_nth:
  assumes "0 \<le> a" "a \<le> b" "b \<le> int (length xs)" "i < nat (b - a)"
  shows "py_slice a b xs ! i = xs ! (nat a + i)"
  using assms by (simp add: py_slice_in_range) 

lemma rectangular_row:
  "rectangular m \<Longrightarrow> i < length m \<Longrightarrow> length (m ! i) = snd (img_shape m)"
  by (simp add: rectangular_def list_all_length)

lemma slice2_length:
  assumes "0 \<le> r0" "r0 \<le> r1" "r1 \<le> int (length m)"
  shows "length (slice2 r0 r1 c0 c1 m) = nat (r1 - r0)"
  using assms by (simp add: slice2_def py_slice_length)

lemma slice2_row:
  assumes "rectangular m" "0 \<le> r0" "r0 \<le> r1" "r1 \<le> int (length m)"
    "0 \<le> c0" "c0 \<le> c1" "c1 \<le> int (snd (img_shape m))" "i < nat (r1 - r0)"
  shows "length (slice2 r0 r1 c0 c1 m ! i) = nat (c1 - c0)"
    and "j < nat (c1 - c0) \<Longrightarrow> slice2 r0 r1 c0 c1 m ! i ! j = m ! (nat r0 + i) ! (nat c0 + j)"
proof -
  have il: "i < length (py_slice r0 r1 m)" using assms by (simp add: py_slice_length)
  have row: "py_slice r0 r1 m ! i = m ! (nat r0 + i)" using assms by (simp add: py_slice_nth)
  have inr: "nat r0 + i < length m" using assms by linarith
  have len: "length (m ! (nat r0 + i)) = snd (img_shape m)"
    using rectangular_row [OF assms(1) inr] .
  have c: "c1 \<le> int (length (m ! (nat r0 + i)))" using assms(7) len by simp
  show "length (slice2 r0 r1 c0 c1 m ! i) = nat (c1 - c0)"
    using il row py_slice_length [OF assms(5,6) c] by (simp add: slice2_def)
  show "j < nat (c1 - c0) \<Longrightarrow> slice2 r0 r1 c0 c1 m ! i ! j = m ! (nat r0 + i) ! (nat c0 + j)"
    using il row py_slice_nth [OF assms(5,6) c] by (simp add: slice2_def)
qed

lemma reshape_Some:
  assumes "reshape xs h w = Some g"
  shows "length g = h"
    and "i < h \<Longrightarrow> length (g ! i) = w"
    and "i < h \<Longrightarrow> j < w \<Longrightarrow> g ! i ! j = xs ! (i * w + j)"
proof -
  have len: "length xs = h * w" and g: "g = map (\<lambda>i. take w (drop (i * w) xs)) [0..<h]"
    using assms by (auto simp: reshape_def split: if_splits)
  show "length g = h" by (simp add: g)
  have fit: "i * w + w \<le> length xs" if "i < h"
  proof -
    have "Suc i * w \<le> h * w" using that by (intro mult_le_mono1) simp
    then show ?thesis by (simp add: len)
  qed
  show "i < h \<Longrightarrow> length (g ! i) = w" using fit by (simp add: g)
  show "i < h \<Longrightarrow> j < w \<Longrightarrow> g ! i ! j = xs ! (i * w + j)" using fit by (simp add: g)
qed

lemma reshape_rectangular:
  assumes "reshape xs h w = Some g" "0 < h"
  shows "rectangular g" and "img_shape g = (h, w)"
proof -
  have l: "length g = h" using reshape_Some(1) [OF assms(1)] .
  have r: "\<And>i. i < h \<Longrightarrow> length (g ! i) = w" using reshape_Some(2) [OF assms(1)] .
  obtain r0 rs where g: "g = r0 # rs" using l assms(2) by (cases g) auto
  have "length (g ! 0) = w" using r [of 0] assms(2) by simp
  then show s: "img_shape g = (h, w)" using l g by (simp add: img_shape_def)
  show "rectangular g" using r l s by (simp add: rectangular_def list_all_length)
qed


lemma same_shape_iff:
  "same_shape a b \<longleftrightarrow> length a = length b \<and> (\<forall>i<length a. length (a ! i) = length (b ! i))"
proof -
  have "map length a = map length b \<longleftrightarrow>
          length (map length a) = length (map length b) \<and>
          (\<forall>i<length (map length a). map length a ! i = map length b ! i)"
    by (rule list_eq_iff_nth_eq)
  then show ?thesis by (auto simp: same_shape_def)
qed

lemma blend_roi_Some:
  assumes "same_shape a t"
  shows "\<exists>v. blend_roi rt col a t = Some v \<and> length v = length a \<and>
           (\<forall>i<length a. length (v ! i) = length (a ! i) \<and>
              (\<forall>j<length (a ! i). v ! i ! j = blend_pixel rt col (a ! i ! j) (t ! i ! j)))"
proof -
  have l: "length a = length t" and r: "\<And>i. i < length a \<Longrightarrow> length (a ! i) = length (t ! i)"
    using assms by (simp_all add: same_shape_iff)
  show ?thesis using assms l r by (simp add: blend_roi_def)
qed

lemma assign2_Some:
  assumes "0 \<le> r0" "r0 \<le> r1" "r1 \<le> int (fst (img_shape img))"
    and "0 \<le> c0" "c0 \<le> c1" "c1 \<le> int (snd (img_shape img))"
    and "length v = nat (r1 - r0)" "\<forall>i<length v. length (v ! i) = nat (c1 - c0)"
  shows "\<exists>img'. assign2 r0 r1 c0 c1 v img = Some img' \<and> length img' = length img \<and>
           (\<forall>i<length img. length (img' ! i) = length (img ! i) \<and>
              (\<forall>j<length (img ! i). img' ! i ! j =
                 (if nat r0 \<le> i \<and> i < nat r1 \<and> nat c0 \<le> j \<and> j < nat c1
                  then v ! (i - nat r0) ! (j - nat c0) else img ! i ! j)))"
proof -
  have sb: "slice_bounds r0 r1 (fst (img_shape img)) = (nat r0, nat r1)"
    "slice_bounds c0 c1 (snd (img_shape img)) = (nat c0, nat c1)"
    using assms by (simp_all add: slice_bounds_in_range)
  have d: "nat r1 - nat r0 = nat (r1 - r0)" "nat c1 - nat c0 = nat (c1 - c0)"
    using assms by (simp_all add: nat_diff_distrib)
  have ok: "length v = nat r1 - nat r0 \<and> list_all (\<lambda>r. length r = nat c1 - nat c0) v"
    using assms(7,8) d by (simp add: list_all_length)
  show ?thesis using ok by (auto simp: assign2_def sb)
qed

lemma draw_glyph_early:
  "clipped_w img bm x \<le> 0 \<or> clipped_h img bm y \<le> 0 \<Longrightarrow> draw_glyph rt img bm x y col = Inr img"
  by (auto simp: draw_glyph_def Let_def)

lemma clipped_pos_dims:
  "0 < clipped_w img bm x \<Longrightarrow> 0 < width bm"
  "0 < clipped_h img bm y \<Longrightarrow> 0 < rows bm"
  by (auto simp: clipped_w_def clipped_h_def x_start_clip_def x_end_clip_def
      y_start_clip_def y_end_clip_def)

lemma draw_glyph_result:
  assumes rect: "rectangular img"
    and cw: "0 < clipped_w img bm x" and ch: "0 < clipped_h img bm y"
    and buf: "length (buffer bm) = rows bm * width bm"
  shows "\<exists>img'. draw_glyph rt img bm x y col = Inr img' \<and> length img' = length img \<and>
           (\<forall>i<length img. length (img' ! i) = length (img ! i) \<and>
              (\<forall>j<length (img ! i). img' ! i ! j =
                 (if nat (y + y_start_clip y) \<le> i \<and>
                     i < nat (y + y_start_clip y + clipped_h img bm y) \<and>
                     nat (x + x_start_clip x) \<le> j \<and>
                     j < nat (x + x_start_clip x + clipped_w img bm x)
                  then blend_pixel rt col
                         (buffer bm ! ((nat (y_start_clip y) + (i - nat (y + y_start_clip y))) * width bm
                                        + (nat (x_start_clip x) + (j - nat (x + x_start_clip x)))))
                         (img ! i ! j)
                  else img ! i ! j)))"
proof -
  define r0 where "r0 = y + y_start_clip y"
  define r1 where "r1 = y + y_start_clip y + clipped_h img bm y"
  define c0 where "c0 = x + x_start_clip x"
  define c1 where "c1 = x + x_start_clip x + clipped_w img bm x"
  define ys where "ys = y_start_clip y"
  define xs where "xs = x_start_clip x"
  define CH where "CH = nat (clipped_h img bm y)"
  define CW where "CW = nat (clipped_w img bm x)"
  note xb = clip_x_bounds [OF cw] and yb = clip_y_bounds [OF ch]
  have shape: "fst (img_shape img) = length img" by (simp add: img_shape_def)
  have rb: "0 \<le> r0" "r0 \<le> r1" "r1 \<le> int (length img)" "nat (r1 - r0) = CH"
    using yb ch by (simp_all add: r0_def r1_def CH_def shape)
  have cb: "0 \<le> c0" "c0 \<le> c1" "c1 \<le> int (snd (img_shape img))" "nat (c1 - c0) = CW"
    using xb cw by (simp_all add: c0_def c1_def CW_def)
  have wh: "0 < width bm" "0 < rows bm" using clipped_pos_dims cw ch by blast+
  obtain g where g: "reshape (buffer bm) (rows bm) (width bm) = Some g"
    using buf by (simp add: reshape_def)
  note gr = reshape_rectangular [OF g wh(2)]
  have gl: "length g = rows bm" using reshape_Some(1) [OF g] .
  have grb: "0 \<le> ys" "ys \<le> ys + clipped_h img bm y" "ys + clipped_h img bm y \<le> int (length g)"
    "nat (ys + clipped_h img bm y - ys) = CH"
    using yb ch by (simp_all add: ys_def gl CH_def)
  have gcb: "0 \<le> xs" "xs \<le> xs + clipped_w img bm x" "xs + clipped_w img bm x \<le> int (snd (img_shape g))"
    "nat (xs + clipped_w img bm x - xs) = CW"
    using xb cw by (simp_all add: xs_def gr(2) CW_def)
  let ?T = "slice2 r0 r1 c0 c1 img"
  let ?G = "slice2 ys (ys + clipped_h img bm y) xs (xs + clipped_w img bm x) g"
  have Tl: "length ?T = CH" using slice2_length [OF rb(1,2,3)] rb(4) by simp
  have Gl: "length ?G = CH" using slice2_length [OF grb(1,2,3)] grb(4) by simp
  have Trow: "length (?T ! i) = CW" if "i < CH" for i
    using slice2_row(1) [OF rect rb(1,2,3) cb(1,2,3)] that rb(4) cb(4) by simp
  have Tnth: "?T ! i ! j = img ! (nat r0 + i) ! (nat c0 + j)" if "i < CH" "j < CW" for i j
    using slice2_row(2) [OF rect rb(1,2,3) cb(1,2,3)] that rb(4) cb(4) by simp
  have Grow: "length (?G ! i) = CW" if "i < CH" for i
    using slice2_row(1) [OF gr(1) grb(1,2,3) gcb(1,2,3)] that grb(4) gcb(4) by simp
  have Gnth0: "?G ! i ! j = g ! (nat ys + i) ! (nat xs + j)" if "i < CH" "j < CW" for i j
    using slice2_row(2) [OF gr(1) grb(1,2,3) gcb(1,2,3)] that grb(4) gcb(4) by simp
  have Gnth: "?G ! i ! j = buffer bm ! ((nat ys + i) * width bm + (nat xs + j))"
    if "i < CH" "j < CW" for i j
  proof -
    have "nat ys + i < rows bm" using that(1) yb ch unfolding ys_def CH_def by linarith
    moreover have "nat xs + j < width bm" using that(2) xb cw unfolding xs_def CW_def by linarith
    ultimately show ?thesis using Gnth0 [OF that] reshape_Some(3) [OF g] by simp
  qed
  have ss: "same_shape ?G ?T" using Tl Gl Trow Grow by (simp add: same_shape_iff)
  obtain v where v: "blend_roi rt col ?G ?T = Some v" "length v = CH"
    and vn: "\<And>i. i < CH \<Longrightarrow> length (v ! i) = CW \<and>
              (\<forall>j<CW. v ! i ! j = blend_pixel rt col (?G ! i ! j) (?T ! i ! j))"
    using blend_roi_Some [OF ss, of rt col] Gl Grow by auto
  have vl: "length v = nat (r1 - r0)" using v(2) rb(4) by simp
  have vr: "\<forall>i<length v. length (v ! i) = nat (c1 - c0)" using vn v(2) cb(4) by simp
  have rb3: "r1 \<le> int (fst (img_shape img))" using rb(3) shape by simp
  obtain img' where a: "assign2 r0 r1 c0 c1 v img = Some img'" "length img' = length img"
    and an: "\<And>i. i < length img \<Longrightarrow> length (img' ! i) = length (img ! i) \<and>
              (\<forall>j<length (img ! i). img' ! i ! j =
                 (if nat r0 \<le> i \<and> i < nat r1 \<and> nat c0 \<le> j \<and> j < nat c1
                  then v ! (i - nat r0) ! (j - nat c0) else img ! i ! j))"
    using assign2_Some [OF rb(1,2) rb3 cb(1,2,3) vl vr] by auto
  have dg: "draw_glyph rt img bm x y col = Inr img'"
    using cw ch wh g v(1) a(1)
    by (simp add: draw_glyph_def Let_def r0_def r1_def c0_def c1_def ys_def xs_def)
  have px: "img' ! i ! j =
              (if nat r0 \<le> i \<and> i < nat r1 \<and> nat c0 \<le> j \<and> j < nat c1
               then blend_pixel rt col
                      (buffer bm ! ((nat ys + (i - nat r0)) * width bm + (nat xs + (j - nat c0))))
                      (img ! i ! j)
               else img ! i ! j)"
    if "i < length img" "j < length (img ! i)" for i j
  proof -
    have anj: "img' ! i ! j =
                (if nat r0 \<le> i \<and> i < nat r1 \<and> nat c0 \<le> j \<and> j < nat c1
                 then v ! (i - nat r0) ! (j - nat c0) else img ! i ! j)"
      using an [OF that(1)] that(2) by blast
    show ?thesis
    proof (cases "nat r0 \<le> i \<and> i < nat r1 \<and> nat c0 \<le> j \<and> j < nat c1")
      case False
      show ?thesis unfolding anj if_not_P [OF False] by (rule refl)
    next
      case True
      have i': "i - nat r0 < CH" using True rb by linarith
      have j': "j - nat c0 < CW" using True cb by linarith
      have "v ! (i - nat r0) ! (j - nat c0) =
              blend_pixel rt col (?G ! (i - nat r0) ! (j - nat c0)) (?T ! (i - nat r0) ! (j - nat c0))"
        using vn [OF i'] j' by blast
      moreover have "?T ! (i - nat r0) ! (j - nat c0) = img ! i ! j"
        using Tnth [OF i' j'] True by simp
      moreover have "?G ! (i - nat r0) ! (j - nat c0) =
                   buffer bm ! ((nat ys + (i - nat r0)) * width bm + (nat xs + (j - nat c0)))"
        using Gnth [OF i' j'] .
      ultimately have "v ! (i - nat r0) ! (j - nat c0) =
          blend_pixel rt col
            (buffer bm ! ((nat ys + (i - nat r0)) * width bm + (nat xs + (j - nat c0))))
            (img ! i ! j)"
        by (simp only:)
      then show ?thesis unfolding anj if_P [OF True] .
    qed
  qed
  show ?thesis
    using dg a(2) an px
    unfolding r0_def r1_def c0_def c1_def ys_def xs_def by blast
qed


lemma draw_glyph_bad_buffer:
  assumes "0 < clipped_w img bm x" "0 < clipped_h img bm y"
    "length (buffer bm) \<noteq> rows bm * width bm"
  shows "draw_glyph rt img bm x y col = Inl ValueError"
  using assms clipped_pos_dims [of img bm]
  by (auto simp: draw_glyph_def Let_def reshape_def)

text \<open>
  C1. For every image, bitmap, colour and position: when the clipped rectangle has no
  width or no height the image is returned as it is; otherwise the rows and columns the
  compositor cuts out of the image lie within the image, and those it cuts out of the
  bitmap lie within the bitmap, so no slice is clamped; an image that is returned has the
  shape of the old one and differs from it only inside that rectangle; and with a bitmap
  buffer of \<open>rows * width\<close> bytes the compositor does return an image.
\<close>

theorem draw_glyph_within_bounds:
  assumes "rectangular img"
  shows "(clipped_w img bm x \<le> 0 \<or> clipped_h img bm y \<le> 0 \<longrightarrow>
            draw_glyph rt img bm x y col = Inr img) \<and>
         (0 < clipped_w img bm x \<and> 0 < clipped_h img bm y \<longrightarrow>
            0 \<le> y + y_start_clip y \<and>
            y + y_start_clip y + clipped_h img bm y \<le> int (fst (img_shape img)) \<and>
            0 \<le> x + x_start_clip x \<and>
            x + x_start_clip x + clipped_w img bm x \<le> int (snd (img_shape img)) \<and>
            0 \<le> y_start_clip y \<and> y_start_clip y + clipped_h img bm y \<le> int (rows bm) \<and>
            0 \<le> x_start_clip x \<and> x_start_clip x + clipped_w img bm x \<le> int (width bm)) \<and>
         (\<forall>img'. draw_glyph rt img bm x y col = Inr img' \<longrightarrow>
            length img' = length img \<and>
            (\<forall>i<length img. length (img' ! i) = length (img ! i) \<and>
               (\<forall>j<length (img ! i).
                  \<not> (nat (y + y_start_clip y) \<le> i \<and>
                      i < nat (y + y_start_clip y + clipped_h img bm y) \<and>
                      nat (x + x_start_clip x) \<le> j \<and>
                      j < nat (x + x_start_clip x + clipped_w img bm x)) \<longrightarrow>
                  img' ! i ! j = img ! i ! j))) \<and>
         (length (buffer bm) = rows bm * width bm \<longrightarrow>
            (\<exists>img'. draw_glyph rt img bm x y col = Inr img'))"
proof (cases "clipped_w img bm x \<le> 0 \<or> clipped_h img bm y \<le> 0")
  case True
  then have "draw_glyph rt img bm x y col = Inr img" by (rule draw_glyph_early)
  then show ?thesis using True by auto
next
  case False
  then have cw: "0 < clipped_w img bm x" and ch: "0 < clipped_h img bm y" by auto
  note xb = clip_x_bounds [OF cw] and yb = clip_y_bounds [OF ch]
  have bounds: "0 \<le> y + y_start_clip y \<and>
            y + y_start_clip y + clipped_h img bm y \<le> int (fst (img_shape img)) \<and>
            0 \<le> x + x_start_clip x \<and>
            x + x_start_clip x + clipped_w img bm x \<le> int (snd (img_shape img)) \<and>
            0 \<le> y_start_clip y \<and> y_start_clip y + clipped_h img bm y \<le> int (rows bm) \<and>
            0 \<le> x_start_clip x \<and> x_start_clip x + clipped_w img bm x \<le> int (width bm)"
    using xb yb by simp
  show ?thesis
  proof (cases "length (buffer bm) = rows bm * width bm")
    case True
    obtain img0 where r: "draw_glyph rt img bm x y col = Inr img0" "length img0 = length img"
      and px: "\<And>i. i < length img \<Longrightarrow> length (img0 ! i) = length (img ! i) \<and>
              (\<forall>j<length (img ! i). img0 ! i ! j =
                 (if nat (y + y_start_clip y) \<le> i \<and>
                     i < nat (y + y_start_clip y + clipped_h img bm y) \<and>
                     nat (x + x_start_clip x) \<le> j \<and>
                     j < nat (x + x_start_clip x + clipped_w img bm x)
                  then blend_pixel rt col
                         (buffer bm ! ((nat (y_start_clip y) + (i - nat (y + y_start_clip y))) * width bm
                                        + (nat (x_start_clip x) + (j - nat (x + x_start_clip x)))))
                         (img ! i ! j)
                  else img ! i ! j))"
      using draw_glyph_result [OF assms cw ch True, of rt col] by blast
    have frame: "\<forall>i<length img. length (img0 ! i) = length (img ! i) \<and>
               (\<forall>j<length (img ! i).
                  \<not> (nat (y + y_start_clip y) \<le> i \<and>
                      i < nat (y + y_start_clip y + clipped_h img bm y) \<and>
                      nat (x + x_start_clip x) \<le> j \<and>
                      j < nat (x + x_start_clip x + clipped_w img bm x)) \<longrightarrow>
                  img0 ! i ! j = img ! i ! j)"
      using px by simp
    show ?thesis using False bounds r frame by auto
  next
    case nofit: False
    have "draw_glyph rt img bm x y col = Inl ValueError"
      using draw_glyph_bad_buffer [OF cw ch nofit] .
    then show ?thesis using False bounds nofit by auto
  qed
qed

lemma blend_channel_ends:
  assumes "binary64_laws rt" "0 \<le> c" "c \<le> 255"
  shows "blend_channel rt 0 t c = t" and "blend_channel rt 255 t c = word_of_int c"
proof -
  have t: "0 \<le> uint t" "uint t \<le> 255"
    using uint_lt2p [of t] by simp_all
  have laws: "fdiv rt (float_of_int rt 0) (float_of_int rt 255) = float_of_int rt 0"
    "fdiv rt (float_of_int rt 255) (float_of_int rt 255) = float_of_int rt 1"
    "fsub rt (float_of_int rt 1) (float_of_int rt 0) = float_of_int rt 1"
    "fsub rt (float_of_int rt 1) (float_of_int rt 1) = float_of_int rt 0"
    using assms(1) by (simp_all add: binary64_laws_def Let_def)
  have n: "fmul rt (float_of_int rt 1) (float_of_int rt n) = float_of_int rt n"
    "fmul rt (float_of_int rt 0) (float_of_int rt n) = float_of_int rt 0"
    "fadd rt (float_of_int rt n) (float_of_int rt 0) = float_of_int rt n"
    "fadd rt (float_of_int rt 0) (float_of_int rt n) = float_of_int rt n"
    "uint8_of_float rt (float_of_int rt n) = word_of_int n"
    if "0 \<le> n" "n \<le> 255" for n
    using assms(1) that by (simp_all add: binary64_laws_def Let_def)
  show "blend_channel rt 0 t c = t"
    by (simp add: blend_channel_def laws n [OF t] n [OF assms(2,3)])
  show "blend_channel rt 255 t c = word_of_int c"
    by (simp add: blend_channel_def laws n [OF t] n [OF assms(2,3)])
qed

text \<open>
  C7. For every pixel under the clipped glyph rectangle: where the coverage byte is 0 the
  pixel is unchanged, where it is 255 the pixel is the glyph colour, channel by channel.
  The colour is a triple of byte values.
\<close>

theorem blend_coverage_boundary:
  assumes "binary64_laws rt"
    and "0 \<le> cb \<and> cb \<le> 255 \<and> 0 \<le> cg \<and> cg \<le> 255 \<and> 0 \<le> cr \<and> cr \<le> 255"
    and "rectangular img"
    and "draw_glyph rt img bm x y (cb, cg, cr) = Inr img'"
    and "i < nat (clipped_h img bm y)" and "j < nat (clipped_w img bm x)"
  shows "(buffer bm ! ((nat (y_start_clip y) + i) * width bm + (nat (x_start_clip x) + j)) = 0 \<longrightarrow>
            img' ! (nat (y + y_start_clip y) + i) ! (nat (x + x_start_clip x) + j) =
            img ! (nat (y + y_start_clip y) + i) ! (nat (x + x_start_clip x) + j)) \<and>
         (buffer bm ! ((nat (y_start_clip y) + i) * width bm + (nat (x_start_clip x) + j)) = 255 \<longrightarrow>
            img' ! (nat (y + y_start_clip y) + i) ! (nat (x + x_start_clip x) + j) =
            (word_of_int cb, word_of_int cg, word_of_int cr)) \<and>
         blend_channel rt 0 t cb = t \<and> blend_channel rt 255 t cb = word_of_int cb"
proof -
  have cw: "0 < clipped_w img bm x" and ch: "0 < clipped_h img bm y" using assms(5,6) by auto
  note xb = clip_x_bounds [OF cw] and yb = clip_y_bounds [OF ch]
  have fit: "length (buffer bm) = rows bm * width bm"
    using draw_glyph_bad_buffer [OF cw ch, where rt = rt and col = "(cb, cg, cr)"] assms(4) by auto
  let ?i = "nat (y + y_start_clip y) + i" and ?j = "nat (x + x_start_clip x) + j"
  have il: "?i < length img" using assms(5) yb unfolding img_shape_def fst_conv by linarith
  have "?j < snd (img_shape img)" using assms(6) xb by linarith
  then have jl: "?j < length (img ! ?i)" using rectangular_row [OF assms(3) il] by simp
  have inwin: "nat (y + y_start_clip y) \<le> ?i \<and> ?i < nat (y + y_start_clip y + clipped_h img bm y) \<and>
               nat (x + x_start_clip x) \<le> ?j \<and> ?j < nat (x + x_start_clip x + clipped_w img bm x)"
    using assms(5,6) xb yb by linarith
  obtain img0 where r: "draw_glyph rt img bm x y (cb, cg, cr) = Inr img0"
      and px: "\<And>i. i < length img \<Longrightarrow> length (img0 ! i) = length (img ! i) \<and>
              (\<forall>j<length (img ! i). img0 ! i ! j =
                 (if nat (y + y_start_clip y) \<le> i \<and>
                     i < nat (y + y_start_clip y + clipped_h img bm y) \<and>
                     nat (x + x_start_clip x) \<le> j \<and>
                     j < nat (x + x_start_clip x + clipped_w img bm x)
                  then blend_pixel rt (cb, cg, cr)
                         (buffer bm ! ((nat (y_start_clip y) + (i - nat (y + y_start_clip y))) * width bm
                                        + (nat (x_start_clip x) + (j - nat (x + x_start_clip x)))))
                         (img ! i ! j)
                  else img ! i ! j))"
      using draw_glyph_result [OF assms(3) cw ch fit, of rt "(cb, cg, cr)"] by blast
  have same: "img0 = img'" using r assms(4) by simp
  have "img0 ! ?i ! ?j =
          (if nat (y + y_start_clip y) \<le> ?i \<and> ?i < nat (y + y_start_clip y + clipped_h img bm y) \<and>
              nat (x + x_start_clip x) \<le> ?j \<and> ?j < nat (x + x_start_clip x + clipped_w img bm x)
           then blend_pixel rt (cb, cg, cr)
                  (buffer bm ! ((nat (y_start_clip y) + (?i - nat (y + y_start_clip y))) * width bm
                                 + (nat (x_start_clip x) + (?j - nat (x + x_start_clip x)))))
                  (img ! ?i ! ?j)
           else img ! ?i ! ?j)"
    using px [OF il] jl by blast
  then have res: "img' ! ?i ! ?j =
      blend_pixel rt (cb, cg, cr)
        (buffer bm ! ((nat (y_start_clip y) + i) * width bm + (nat (x_start_clip x) + j)))
        (img ! ?i ! ?j)"
    unfolding same if_P [OF inwin] by simp
  obtain tb tg tr where p: "img ! ?i ! ?j = (tb, tg, tr)" by (cases "img ! ?i ! ?j") auto
  note e = blend_channel_ends [OF assms(1)]
  have z: "blend_pixel rt (cb, cg, cr) 0 (tb, tg, tr) = (tb, tg, tr)"
    using assms(2) by (simp add: blend_pixel_def e)
  have f: "blend_pixel rt (cb, cg, cr) 255 (tb, tg, tr) = (word_of_int cb, word_of_int cg, word_of_int cr)"
    using assms(2) by (simp add: blend_pixel_def e)
  have ends: "blend_channel rt 0 t cb = t \<and> blend_channel rt 255 t cb = word_of_int cb"
    using assms(2) e by simp
  show ?thesis using res p z f ends by auto
qed


text \<open>The exact instance satisfies the laws.\<close>

lemma binary64_laws_exact: "binary64_laws exact_runtime"
  by (simp add: binary64_laws_def exact_runtime_def trunc_def)

theorem draw_glyph_within_bounds_witness:
  "rectangular img22 \<and>
   clipped_w img22 bm22 5 \<le> 0 \<and>
   draw_glyph exact_runtime img22 bm22 5 (- 7) (1, 2, 3) = Inr img22 \<and>
   0 < clipped_w img22 bm22 (- 1) \<and> 0 < clipped_h img22 bm22 1 \<and>
   0 \<le> 1 + y_start_clip 1 \<and>
   1 + y_start_clip 1 + clipped_h img22 bm22 1 \<le> int (fst (img_shape img22)) \<and>
   0 \<le> - 1 + x_start_clip (- 1) \<and>
   - 1 + x_start_clip (- 1) + clipped_w img22 bm22 (- 1) \<le> int (snd (img_shape img22)) \<and>
   0 \<le> y_start_clip 1 \<and> y_start_clip 1 + clipped_h img22 bm22 1 \<le> int (rows bm22) \<and>
   0 \<le> x_start_clip (- 1) \<and>
   x_start_clip (- 1) + clipped_w img22 bm22 (- 1) \<le> int (width bm22) \<and>
   draw_glyph exact_runtime img22 bm22 (- 1) 1 (1, 2, 3) =
     Inr [[(10, 20, 30), (40, 50, 60)], [(1, 2, 3), (100, 110, 120)]]"
proof -
  have r: "rectangular img22" by code_simp
  have off: "clipped_w img22 bm22 5 \<le> 0" by code_simp
  have on: "0 < clipped_w img22 bm22 (- 1) \<and> 0 < clipped_h img22 bm22 1" by code_simp
  have ev: "draw_glyph exact_runtime img22 bm22 (- 1) 1 (1, 2, 3) =
     Inr [[(10, 20, 30), (40, 50, 60)], [(1, 2, 3), (100, 110, 120)]]" by code_simp
  have a: "draw_glyph exact_runtime img22 bm22 5 (- 7) (1, 2, 3) = Inr img22"
    using draw_glyph_within_bounds [OF r, where bm = bm22 and x = 5 and y = "- 7"
        and rt = exact_runtime and col = "(1, 2, 3)", THEN conjunct1] off
    by blast
  have b: "0 \<le> 1 + y_start_clip 1 \<and>
   1 + y_start_clip 1 + clipped_h img22 bm22 1 \<le> int (fst (img_shape img22)) \<and>
   0 \<le> - 1 + x_start_clip (- 1) \<and>
   - 1 + x_start_clip (- 1) + clipped_w img22 bm22 (- 1) \<le> int (snd (img_shape img22)) \<and>
   0 \<le> y_start_clip 1 \<and> y_start_clip 1 + clipped_h img22 bm22 1 \<le> int (rows bm22) \<and>
   0 \<le> x_start_clip (- 1) \<and>
   x_start_clip (- 1) + clipped_w img22 bm22 (- 1) \<le> int (width bm22)"
    using draw_glyph_within_bounds [OF r, where bm = bm22 and x = "- 1" and y = 1
        and rt = exact_runtime and col = "(1, 2, 3)", THEN conjunct2, THEN conjunct1] on
    by (rule mp)
  show ?thesis using r off a on b ev by (intro conjI) (simp_all only:)
qed


theorem blend_coverage_boundary_witness:
  "binary64_laws exact_runtime \<and> rectangular img22 \<and>
   draw_glyph exact_runtime img22 bm22 0 0 (1, 2, 3) =
     Inr [[(10, 20, 30), (1, 2, 3)], [(35, 40, 46), (75, 82, 90)]] \<and>
   buffer bm22 ! ((nat (y_start_clip 0) + 0) * width bm22 + (nat (x_start_clip 0) + 0)) = 0 \<and>
   [[(10, 20, 30), (1, 2, 3)], [(35, 40, 46), (75, 82, 90)]]
       ! (nat (0 + y_start_clip 0) + 0) ! (nat (0 + x_start_clip 0) + 0) =
     img22 ! (nat (0 + y_start_clip 0) + 0) ! (nat (0 + x_start_clip 0) + 0) \<and>
   buffer bm22 ! ((nat (y_start_clip 0) + 0) * width bm22 + (nat (x_start_clip 0) + 1)) = 255 \<and>
   ([[(10, 20, 30), (1, 2, 3)], [(35, 40, 46), (75, 82, 90)]] :: image)
       ! (nat (0 + y_start_clip 0) + 0) ! (nat (0 + x_start_clip 0) + 1) =
     (word_of_int 1, word_of_int 2, word_of_int 3) \<and>
   blend_channel exact_runtime 0 77 1 = 77 \<and> blend_channel exact_runtime 255 77 1 = word_of_int 1"
proof -
  let ?R = "[[(10, 20, 30), (1, 2, 3)], [(35, 40, 46), (75, 82, 90)]] :: image"
  have r: "rectangular img22" by code_simp
  have c: "(0::int) \<le> 1 \<and> (1::int) \<le> 255 \<and> (0::int) \<le> 2 \<and> (2::int) \<le> 255 \<and>
           (0::int) \<le> 3 \<and> (3::int) \<le> 255"
    by simp
  have ev: "draw_glyph exact_runtime img22 bm22 0 0 (1, 2, 3) = Inr ?R" by code_simp
  have i0: "0 < nat (clipped_h img22 bm22 0)" by code_simp
  have j0: "0 < nat (clipped_w img22 bm22 0)" by code_simp
  have j1: "1 < nat (clipped_w img22 bm22 0)" by code_simp
  have g0: "buffer bm22 ! ((nat (y_start_clip 0) + 0) * width bm22 + (nat (x_start_clip 0) + 0)) = 0"
    by code_simp
  have g1: "buffer bm22 ! ((nat (y_start_clip 0) + 0) * width bm22 + (nat (x_start_clip 0) + 1)) = 255"
    by code_simp
  note t0 = blend_coverage_boundary [OF binary64_laws_exact c r ev i0 j0, of 77]
  note t1 = blend_coverage_boundary [OF binary64_laws_exact c r ev i0 j1, of 77]
  have p0: "?R ! (nat (0 + y_start_clip 0) + 0) ! (nat (0 + x_start_clip 0) + 0) =
     img22 ! (nat (0 + y_start_clip 0) + 0) ! (nat (0 + x_start_clip 0) + 0)"
    using t0 [THEN conjunct1] g0 by (rule mp)
  have p1: "?R ! (nat (0 + y_start_clip 0) + 0) ! (nat (0 + x_start_clip 0) + 1) =
     (word_of_int 1, word_of_int 2, word_of_int 3)"
    using t1 [THEN conjunct2, THEN conjunct1] g1 by (rule mp)
  have e: "blend_channel exact_runtime 0 77 1 = 77 \<and> blend_channel exact_runtime 255 77 1 = word_of_int 1"
    using t0 [THEN conjunct2, THEN conjunct2] .
  show ?thesis
    using binary64_laws_exact r ev g0 p0 g1 p1 e [THEN conjunct1] e [THEN conjunct2]
    by blast
qed

section \<open>Properties of the layout engine\<close>


lemma draw_chars_append:
  "draw_chars rt fc sz asc gap col x_start mw st (xs @ ys) =
     (case draw_chars rt fc sz asc gap col x_start mw st xs of
        Inl e \<Rightarrow> Inl e
      | Inr st' \<Rightarrow> draw_chars rt fc sz asc gap col x_start mw st' ys)"
  by (induction xs arbitrary: st) (auto split: sum.splits)

lemma draw_char_newline:
  "draw_char rt fc sz asc gap col x_start mw st (CHR 0x0A) =
     Inr \<lparr>pen_x = x_start, pen_y = pen_y st + gap, previous_char = None, canvas = canvas st\<rparr>"
  by (cases st) (simp add: draw_char_def)

lemma draw_segment_ok:
  assumes "hex_to_bgr rt (color (seg_style seg)) = Some col"
    and "set_pixel_sizes fc (font_size (seg_style seg)) = Some m"
    and "line_gap rt m (spacing (seg_style seg)) = Some gap"
  shows "draw_segment rt fc x_start mw st seg =
           draw_chars rt fc (font_size (seg_style seg)) (size_ascender m div 64) gap col
             x_start mw st (seg_text seg)"
  using assms by (simp add: draw_segment_def)

lemma trunc_towards_zero: "\<bar>of_int (trunc q)\<bar> \<le> \<bar>q\<bar> \<and> \<bar>q\<bar> < \<bar>of_int (trunc q)\<bar> + 1"
proof (cases "0 \<le> q")
  case True
  then have "0 \<le> \<lfloor>q\<rfloor>" by simp
  then show ?thesis using True by (simp add: trunc_def) linarith
next
  case False
  then have "\<lceil>q\<rceil> \<le> 0" by (simp add: ceiling_le_iff)
  then show ?thesis using False by (simp add: trunc_def) linarith
qed

lemma draw_segments_append:
  "draw_segments rt fc x_start mw st (xs @ ys) =
     (case draw_segments rt fc x_start mw st xs of
        Inl e \<Rightarrow> Inl e
      | Inr st' \<Rightarrow> draw_segments rt fc x_start mw st' ys)"
  by (induction xs arbitrary: st) (auto split: sum.splits)

lemma draw_segment_newline:
  assumes "hex_to_bgr rt (color (seg_style seg)) = Some col"
    and "set_pixel_sizes fc (font_size (seg_style seg)) = Some m"
    and "line_gap rt m (spacing (seg_style seg)) = Some gap"
    and "seg_text seg = pre @ CHR 0x0A # post"
    and "draw_chars rt fc (font_size (seg_style seg)) (size_ascender m div 64) gap col
           x_start mw st pre = Inr st1"
  shows "draw_segment rt fc x_start mw st seg =
           draw_chars rt fc (font_size (seg_style seg)) (size_ascender m div 64) gap col x_start mw
             \<lparr>pen_x = x_start, pen_y = pen_y st1 + gap, previous_char = None,
               canvas = canvas st1\<rparr> post"
proof -
  have "draw_segment rt fc x_start mw st seg =
          draw_chars rt fc (font_size (seg_style seg)) (size_ascender m div 64) gap col
            x_start mw st (pre @ CHR 0x0A # post)"
    using draw_segment_ok [OF assms(1,2,3)] assms(4) by simp
  then show ?thesis
    by (simp add: draw_chars_append assms(5) draw_char_newline)
qed

text \<open>
  C8. For a line break in the text of any segment of the text that \<^verbatim>\<open>draw_text\<close> draws,
  after the segments and the characters before it have been drawn: the pen goes back to
  the x of the start position of the call, the pen's y grows by the line gap of the
  segment's style, the previous character is cleared and the image is not touched; the
  rest of the segment and the segments after it are drawn from that state.
\<close>

theorem newline_resets_pen:
  assumes "parse_rich_text rt (replace_newlines raw) (default_style opts lsm) = before @ seg # after"
    and "draw_segments rt fc (fst start_pos) mw
           \<lparr>pen_x = fst start_pos, pen_y = snd start_pos, previous_char = None, canvas = img\<rparr>
           before = Inr st"
    and "hex_to_bgr rt (color (seg_style seg)) = Some col"
    and "set_pixel_sizes fc (font_size (seg_style seg)) = Some m"
    and "line_gap rt m (spacing (seg_style seg)) = Some gap"
    and "seg_text seg = pre @ CHR 0x0A # post"
    and "draw_chars rt fc (font_size (seg_style seg)) (size_ascender m div 64) gap col
           (fst start_pos) mw st pre = Inr st1"
  shows "draw_char rt fc (font_size (seg_style seg)) (size_ascender m div 64) gap col
           (fst start_pos) mw st1 (CHR 0x0A) =
           Inr \<lparr>pen_x = fst start_pos, pen_y = pen_y st1 + gap, previous_char = None,
                canvas = canvas st1\<rparr> \<and>
         draw_text rt img raw start_pos fc opts mw lsm =
           (case draw_chars rt fc (font_size (seg_style seg)) (size_ascender m div 64) gap col
                   (fst start_pos) mw
                   \<lparr>pen_x = fst start_pos, pen_y = pen_y st1 + gap, previous_char = None,
                     canvas = canvas st1\<rparr> post of
              Inl e \<Rightarrow> Inl e
            | Inr st2 \<Rightarrow> draw_segments rt fc (fst start_pos) mw st2 after)"
proof -
  have "draw_text rt img raw start_pos fc opts mw lsm =
          draw_segments rt fc (fst start_pos) mw
            \<lparr>pen_x = fst start_pos, pen_y = snd start_pos, previous_char = None, canvas = img\<rparr>
            (before @ seg # after)"
    using assms(1) by (simp add: draw_text_def Let_def)
  also have "\<dots> = (case draw_segment rt fc (fst start_pos) mw st seg of
                      Inl e \<Rightarrow> Inl e
                    | Inr st' \<Rightarrow> draw_segments rt fc (fst start_pos) mw st' after)"
    by (simp add: draw_segments_append assms(2))
  finally show ?thesis
    by (simp add: draw_segment_newline [OF assms(3-7)] draw_char_newline)
qed

text \<open>
  C4 (amended). The line gap of a segment is \<^verbatim>\<open>int\<close> of the product of the face's line
  height at the segment's size and the segment's spacing: the product truncated towards
  zero, not rounded. It is computed for each segment and is what a line break adds to the
  pen's y.
\<close>
theorem line_gap_truncates:
  assumes "truncating rt val"
    and "hex_to_bgr rt (color (seg_style seg)) = Some col"
    and "set_pixel_sizes fc (font_size (seg_style seg)) = Some m"
    and "line_gap rt m (spacing (seg_style seg)) = Some gap"
  shows "gap = trunc (val (fmul rt (float_of_int rt (size_height m div 64)) (spacing (seg_style seg)))) \<and>
         \<bar>of_int gap\<bar> \<le> \<bar>val (fmul rt (float_of_int rt (size_height m div 64)) (spacing (seg_style seg)))\<bar> \<and>
         \<bar>val (fmul rt (float_of_int rt (size_height m div 64)) (spacing (seg_style seg)))\<bar> < \<bar>of_int gap\<bar> + 1 \<and>
         draw_segment rt fc x_start mw st seg =
           draw_chars rt fc (font_size (seg_style seg)) (size_ascender m div 64) gap col
             x_start mw st (seg_text seg) \<and>
         draw_char rt fc (font_size (seg_style seg)) (size_ascender m div 64) gap col
           x_start mw st' (CHR 0x0A) =
           Inr \<lparr>pen_x = x_start, pen_y = pen_y st' + gap, previous_char = None, canvas = canvas st'\<rparr>"
proof -
  let ?p = "fmul rt (float_of_int rt (size_height m div 64)) (spacing (seg_style seg))"
  have g: "gap = trunc (val ?p)"
    using assms(1,4) by (simp add: truncating_def line_gap_def)
  show ?thesis
    using g trunc_towards_zero [of "val ?p"] draw_segment_ok [OF assms(2,3,4)]
    by (simp add: draw_char_newline)
qed

text \<open>
  C5 (amended). With a positive maximal width \<open>W\<close>, the layout wraps before a character
  exactly when \<open>pen_x + kerning + advance > x_start + W\<close> and \<open>pen_x > x_start\<close>. On a wrap
  the glyph is drawn at \<open>x_start\<close> plus its left bearing, one line gap further down,
  with no kerning, and the pen ends at \<open>x_start\<close> plus the advance; without a wrap the
  glyph is drawn after the kerning on the same line.
\<close>
theorem wrap_step:
  assumes "ch \<noteq> CHR 0x0A"
    and "load_char fc sz ch = Some g"
    and "get_kerning fc sz (previous_char st) ch = Some k"
    and "0 < W"
  shows "(wraps (Some W) x_start (pen_x st) (k div 64) (advance_x g div 64) \<longleftrightarrow>
            pen_x st + k div 64 + advance_x g div 64 > x_start + W \<and> pen_x st > x_start) \<and>
         (wraps (Some W) x_start (pen_x st) (k div 64) (advance_x g div 64) \<longrightarrow>
            draw_char rt fc sz asc gap col x_start (Some W) st ch =
              (case draw_glyph rt (canvas st) (bitmap g) (x_start + bitmap_left g)
                      (pen_y st + gap + asc - bitmap_top g) col of
                 Inl e \<Rightarrow> Inl e
               | Inr img' \<Rightarrow>
                   Inr \<lparr>pen_x = x_start + advance_x g div 64, pen_y = pen_y st + gap,
                        previous_char = Some ch, canvas = img'\<rparr>)) \<and>
         (\<not> wraps (Some W) x_start (pen_x st) (k div 64) (advance_x g div 64) \<longrightarrow>
            draw_char rt fc sz asc gap col x_start (Some W) st ch =
              (case draw_glyph rt (canvas st) (bitmap g) (pen_x st + k div 64 + bitmap_left g)
                      (pen_y st + asc - bitmap_top g) col of
                 Inl e \<Rightarrow> Inl e
               | Inr img' \<Rightarrow>
                   Inr \<lparr>pen_x = pen_x st + k div 64 + advance_x g div 64, pen_y = pen_y st,
                        previous_char = Some ch, canvas = img'\<rparr>))"
  using assms by (auto simp: wraps_def draw_char_def Let_def split: sum.splits)


theorem newline_resets_pen_witness:
  "parse_rich_text exact_runtime
     (replace_newlines (''x[size=2]a'' @ [CHR 0x5C, CHR ''n'', CHR ''b'']))
     (default_style opts0 (6 / 5)) =
     [] @ \<lparr>seg_text = ''x'', seg_style = \<lparr>color = ''#000000'', font_size = 1, spacing = 7 / 4\<rparr>\<rparr> #
     [\<lparr>seg_text = [CHR ''a'', CHR 0x0A, CHR ''b''],
        seg_style = \<lparr>color = ''#000000'', font_size = 2, spacing = 7 / 4\<rparr>\<rparr>] \<and>
   draw_char exact_runtime mono_face 2 2 3 (0, 0, 0) 5 (Some 100)
     \<lparr>pen_x = 13, pen_y = 7, previous_char = Some CHR ''a'', canvas = img22\<rparr> (CHR 0x0A) =
     Inr \<lparr>pen_x = 5, pen_y = 10, previous_char = None, canvas = img22\<rparr> \<and>
   draw_text exact_runtime img22 (''x[size=2]a'' @ [CHR 0x5C, CHR ''n'', CHR ''b'']) (5, 7)
     mono_face opts0 (Some 100) (6 / 5) =
     Inr \<lparr>pen_x = 9, pen_y = 10, previous_char = Some CHR ''b'', canvas = img22\<rparr>"
proof -
  let ?raw = "''x[size=2]a'' @ [CHR 0x5C, CHR ''n'', CHR ''b'']"
  let ?s1 = "\<lparr>seg_text = ''x'', seg_style = \<lparr>color = ''#000000'', font_size = 1, spacing = 7 / 4 :: rat\<rparr>\<rparr>"
  let ?s2 = "\<lparr>seg_text = [CHR ''a'', CHR 0x0A, CHR ''b''],
        seg_style = \<lparr>color = ''#000000'', font_size = 2, spacing = 7 / 4 :: rat\<rparr>\<rparr>"
  let ?m = "\<lparr>size_ascender = 64 * 2, size_height = 64 * 2\<rparr>"
  let ?st = "\<lparr>pen_x = 9, pen_y = 7, previous_char = Some CHR ''x'', canvas = img22\<rparr>"
  let ?st1 = "\<lparr>pen_x = 13, pen_y = 7, previous_char = Some CHR ''a'', canvas = img22\<rparr>"
  have h1: "parse_rich_text exact_runtime (replace_newlines ?raw) (default_style opts0 (6 / 5)) =
              [?s1] @ ?s2 # []" by code_simp
  have h2: "draw_segments exact_runtime mono_face (fst (5, 7)) (Some 100)
              \<lparr>pen_x = fst (5, 7), pen_y = snd (5, 7), previous_char = None, canvas = img22\<rparr> [?s1] =
            Inr ?st" by code_simp
  have h3: "hex_to_bgr exact_runtime (color (seg_style ?s2)) = Some (0, 0, 0)" by code_simp
  have h4: "set_pixel_sizes mono_face (font_size (seg_style ?s2)) = Some ?m" by code_simp
  have h5: "line_gap exact_runtime ?m (spacing (seg_style ?s2)) = Some 3" by code_simp
  have h6: "seg_text ?s2 = ''a'' @ CHR 0x0A # ''b''" by simp
  have h7: "draw_chars exact_runtime mono_face (font_size (seg_style ?s2)) (size_ascender ?m div 64)
              3 (0, 0, 0) (fst (5, 7)) (Some 100) ?st ''a'' = Inr ?st1" by code_simp
  have e: "draw_chars exact_runtime mono_face (font_size (seg_style ?s2)) (size_ascender ?m div 64)
              3 (0, 0, 0) (fst (5, 7)) (Some 100)
              \<lparr>pen_x = fst (5, 7), pen_y = pen_y ?st1 + 3, previous_char = None, canvas = canvas ?st1\<rparr> ''b'' =
            Inr \<lparr>pen_x = 9, pen_y = 10, previous_char = Some CHR ''b'', canvas = img22\<rparr>" by code_simp
  note t = newline_resets_pen [OF h1 h2 h3 h4 h5 h6 h7]
  have a: "draw_char exact_runtime mono_face 2 2 3 (0, 0, 0) 5 (Some 100) ?st1 (CHR 0x0A) =
     Inr \<lparr>pen_x = 5, pen_y = 10, previous_char = None, canvas = img22\<rparr>"
    using t [THEN conjunct1] by simp
  have b: "draw_text exact_runtime img22 ?raw (5, 7) mono_face opts0 (Some 100) (6 / 5) =
     Inr \<lparr>pen_x = 9, pen_y = 10, previous_char = Some CHR ''b'', canvas = img22\<rparr>"
    using t [THEN conjunct2] unfolding e by simp
  have h1': "parse_rich_text exact_runtime (replace_newlines ?raw) (default_style opts0 (6 / 5)) =
              [] @ ?s1 # [?s2]" using h1 by simp
  show ?thesis using h1' a b by blast
qed
theorem line_gap_truncates_witness:
  "truncating exact_runtime (\<lambda>x. x) \<and>
   line_gap exact_runtime \<lparr>size_ascender = 64, size_height = 64\<rparr> (7 / 4) = Some 1 \<and>
   (1::int) = trunc (fmul exact_runtime (float_of_int exact_runtime (64 div 64)) (7 / 4)) \<and>
   draw_segment exact_runtime mono_face 0 None
     \<lparr>pen_x = 3, pen_y = 0, previous_char = None, canvas = []\<rparr>
     \<lparr>seg_text = [CHR 0x0A], seg_style = \<lparr>color = ''#000000'', font_size = 1, spacing = 7 / 4\<rparr>\<rparr> =
     Inr \<lparr>pen_x = 0, pen_y = 1, previous_char = None, canvas = []\<rparr>"
proof -
  let ?seg = "\<lparr>seg_text = [CHR 0x0A], seg_style = \<lparr>color = ''#000000'', font_size = 1, spacing = 7 / 4 :: rat\<rparr>\<rparr>"
  let ?m = "\<lparr>size_ascender = 64, size_height = 64\<rparr>"
  let ?st = "\<lparr>pen_x = 3, pen_y = 0, previous_char = None, canvas = []\<rparr>"
  have h0: "truncating exact_runtime (\<lambda>x. x)" by (simp add: truncating_def exact_runtime_def)
  have h1: "hex_to_bgr exact_runtime (color (seg_style ?seg)) = Some (0, 0, 0)" by code_simp
  have h2: "set_pixel_sizes mono_face (font_size (seg_style ?seg)) = Some ?m" by code_simp
  have h3: "line_gap exact_runtime ?m (spacing (seg_style ?seg)) = Some 1" by code_simp
  have e: "draw_chars exact_runtime mono_face (font_size (seg_style ?seg)) (size_ascender ?m div 64)
              1 (0, 0, 0) 0 None ?st (seg_text ?seg) =
            Inr \<lparr>pen_x = 0, pen_y = 1, previous_char = None, canvas = []\<rparr>" by code_simp
  note t = line_gap_truncates [OF h0 h1 h2 h3, of 0 None ?st ?st]
  have a: "(1::int) = trunc (fmul exact_runtime (float_of_int exact_runtime (64 div 64)) (7 / 4))"
    using t [THEN conjunct1] by simp
  have b: "draw_segment exact_runtime mono_face 0 None ?st ?seg =
     Inr \<lparr>pen_x = 0, pen_y = 1, previous_char = None, canvas = []\<rparr>"
    using t [THEN conjunct2, THEN conjunct2, THEN conjunct2, THEN conjunct1] e by simp
  have h3': "line_gap exact_runtime ?m (7 / 4) = Some 1" using h3 by simp
  show ?thesis using h0 h3' a b by blast
qed

theorem line_gap_counterexample:
  "line_gap exact_runtime \<lparr>size_ascender = 64, size_height = 64\<rparr> (7 / 4) = Some 1 \<and>
   round ((of_int (64 div 64) :: rat) * (7 / 4)) = (2::int) \<and>
   draw_text exact_runtime [] [CHR 0x0A] (0, 0) mono_face opts0 None (6 / 5) =
     Inr \<lparr>pen_x = 0, pen_y = 1, previous_char = None, canvas = []\<rparr>"
proof -
  have a: "line_gap exact_runtime \<lparr>size_ascender = 64, size_height = 64\<rparr> (7 / 4) = Some 1"
    by code_simp
  have b: "round ((of_int (64 div 64) :: rat) * (7 / 4)) = (2::int)"
    by (simp add: round_def floor_eq_iff)
  have c: "draw_text exact_runtime [] [CHR 0x0A] (0, 0) mono_face opts0 None (6 / 5) =
     Inr \<lparr>pen_x = 0, pen_y = 1, previous_char = None, canvas = []\<rparr>"
    by code_simp
  show ?thesis using a b c by blast
qed

theorem wrap_step_witness:
  "draw_char exact_runtime mono_face 1 1 1 (0, 0, 0) 0 (Some 10)
     \<lparr>pen_x = 8, pen_y = 0, previous_char = Some CHR ''b'', canvas = []\<rparr> CHR ''c'' =
     Inr \<lparr>pen_x = 4, pen_y = 1, previous_char = Some CHR ''c'', canvas = []\<rparr> \<and>
   draw_char exact_runtime mono_face 1 1 1 (0, 0, 0) 0 (Some 10)
     \<lparr>pen_x = 4, pen_y = 0, previous_char = Some CHR ''a'', canvas = []\<rparr> CHR ''b'' =
     Inr \<lparr>pen_x = 8, pen_y = 0, previous_char = Some CHR ''b'', canvas = []\<rparr> \<and>
   draw_text exact_runtime [] ''abcd'' (0, 0) mono_face opts0 (Some 10) (6 / 5) =
     Inr \<lparr>pen_x = 8, pen_y = 1, previous_char = Some CHR ''d'', canvas = []\<rparr>"
proof -
  let ?g = "\<lparr>advance_x = 64 * 4, bitmap_left = 0, bitmap_top = 0,
             bitmap = \<lparr>width = 0, rows = 0, buffer = []\<rparr>\<rparr>"
  let ?s1 = "\<lparr>pen_x = 8, pen_y = 0, previous_char = Some CHR ''b'', canvas = []\<rparr>"
  let ?s2 = "\<lparr>pen_x = 4, pen_y = 0, previous_char = Some CHR ''a'', canvas = []\<rparr>"
  have n1: "CHR ''c'' \<noteq> CHR 0x0A" and n2: "CHR ''b'' \<noteq> CHR 0x0A" by simp_all
  have l1: "load_char mono_face 1 CHR ''c'' = Some ?g" and l2: "load_char mono_face 1 CHR ''b'' = Some ?g"
    by (simp_all add: mono_face_def)
  have k1: "get_kerning mono_face 1 (previous_char ?s1) CHR ''c'' = Some 0"
    and k2: "get_kerning mono_face 1 (previous_char ?s2) CHR ''b'' = Some 0"
    by (simp_all add: mono_face_def)
  have w: "(0::int) < 10" by simp
  have w1: "wraps (Some 10) 0 (pen_x ?s1) (0 div 64) (advance_x ?g div 64)" by (simp add: wraps_def)
  have w2: "\<not> wraps (Some 10) 0 (pen_x ?s2) (0 div 64) (advance_x ?g div 64)" by (simp add: wraps_def)
  have d: "\<And>x y. draw_glyph exact_runtime [] \<lparr>width = 0, rows = 0, buffer = []\<rparr> x y (0, 0, 0) = Inr []"
    by (simp add: draw_glyph_def)
  have a: "draw_char exact_runtime mono_face 1 1 1 (0, 0, 0) 0 (Some 10) ?s1 CHR ''c'' =
     Inr \<lparr>pen_x = 4, pen_y = 1, previous_char = Some CHR ''c'', canvas = []\<rparr>"
    using wrap_step [OF n1 l1 k1 w, of 0 exact_runtime 1 1 "(0, 0, 0)", THEN conjunct2, THEN conjunct1] w1
    by (simp add: d)
  have b: "draw_char exact_runtime mono_face 1 1 1 (0, 0, 0) 0 (Some 10) ?s2 CHR ''b'' =
     Inr \<lparr>pen_x = 8, pen_y = 0, previous_char = Some CHR ''b'', canvas = []\<rparr>"
    using wrap_step [OF n2 l2 k2 w, of 0 exact_runtime 1 1 "(0, 0, 0)", THEN conjunct2, THEN conjunct2] w2
    by (simp add: d)
  have c: "draw_text exact_runtime [] ''abcd'' (0, 0) mono_face opts0 (Some 10) (6 / 5) =
     Inr \<lparr>pen_x = 8, pen_y = 1, previous_char = Some CHR ''d'', canvas = []\<rparr>"
    by code_simp
  show ?thesis using a b c by blast
qed

theorem wrap_left_of_start_counterexample:
  "draw_chars exact_runtime kern_face 1 1 1 (0, 0, 0) 0 (Some 10)
     \<lparr>pen_x = 0, pen_y = 0, previous_char = None, canvas = []\<rparr> ''ab'' =
     Inr \<lparr>pen_x = - 1, pen_y = 0, previous_char = Some CHR ''b'', canvas = []\<rparr> \<and>
   load_char kern_face 1 CHR ''c'' =
     Some \<lparr>advance_x = 6400, bitmap_left = 0, bitmap_top = 0,
           bitmap = \<lparr>width = 0, rows = 0, buffer = []\<rparr>\<rparr> \<and>
   get_kerning kern_face 1 (Some CHR ''b'') CHR ''c'' = Some 0 \<and>
   (0::int) + 10 < - 1 + 0 div 64 + 6400 div 64 \<and> (- 1 :: int) \<noteq> 0 \<and>
   draw_char exact_runtime kern_face 1 1 1 (0, 0, 0) 0 (Some 10)
     \<lparr>pen_x = - 1, pen_y = 0, previous_char = Some CHR ''b'', canvas = []\<rparr> CHR ''c'' =
     Inr \<lparr>pen_x = 99, pen_y = 0, previous_char = Some CHR ''c'', canvas = []\<rparr> \<and>
   draw_text exact_runtime [] ''abc'' (0, 0) kern_face opts0 (Some 10) (6 / 5) =
     Inr \<lparr>pen_x = 99, pen_y = 0, previous_char = Some CHR ''c'', canvas = []\<rparr>"
proof -
  have a: "draw_chars exact_runtime kern_face 1 1 1 (0, 0, 0) 0 (Some 10)
     \<lparr>pen_x = 0, pen_y = 0, previous_char = None, canvas = []\<rparr> ''ab'' =
     Inr \<lparr>pen_x = - 1, pen_y = 0, previous_char = Some CHR ''b'', canvas = []\<rparr>" by code_simp
  have b: "load_char kern_face 1 CHR ''c'' =
     Some \<lparr>advance_x = 6400, bitmap_left = 0, bitmap_top = 0,
           bitmap = \<lparr>width = 0, rows = 0, buffer = []\<rparr>\<rparr>" by (simp add: kern_face_def)
  have c: "get_kerning kern_face 1 (Some CHR ''b'') CHR ''c'' = Some 0" by (simp add: kern_face_def)
  have d: "(0::int) + 10 < - 1 + 0 div 64 + 6400 div 64" "(- 1 :: int) \<noteq> 0" by simp_all
  have e: "draw_char exact_runtime kern_face 1 1 1 (0, 0, 0) 0 (Some 10)
     \<lparr>pen_x = - 1, pen_y = 0, previous_char = Some CHR ''b'', canvas = []\<rparr> CHR ''c'' =
     Inr \<lparr>pen_x = 99, pen_y = 0, previous_char = Some CHR ''c'', canvas = []\<rparr>" by code_simp
  have f: "draw_text exact_runtime [] ''abc'' (0, 0) kern_face opts0 (Some 10) (6 / 5) =
     Inr \<lparr>pen_x = 99, pen_y = 0, previous_char = Some CHR ''c'', canvas = []\<rparr>" by code_simp
  show ?thesis using a b c d e f by blast
qed

end
